theory Spec2Isabelle
  imports Main "HOL-Library.Word"
begin

section \<open>Sequence arithmetic\<close>

text \<open>
  \<^verbatim>\<open>
  int reliable_sequence_greater_than( uint16_t s1, uint16_t s2 )
  {
      return ( ( s1 > s2 ) && ( s1 - s2 <= 32768 ) ) ||
             ( ( s1 < s2 ) && ( s2 - s1  > 32768 ) );
  }
  \<close>
  Both operands are promoted to \<open>int\<close> before they are compared and subtracted, so the
  model reads them with \<open>uint\<close> and works on unbounded integers.
\<close>

definition reliable_sequence_greater_than :: "16 word \<Rightarrow> 16 word \<Rightarrow> bool" where
  "reliable_sequence_greater_than s1 s2 =
     ((uint s1 > uint s2 \<and> uint s1 - uint s2 \<le> 32768) \<or>
      (uint s1 < uint s2 \<and> uint s2 - uint s1 > 32768))"

definition reliable_sequence_less_than :: "16 word \<Rightarrow> 16 word \<Rightarrow> bool" where
  "reliable_sequence_less_than s1 s2 = reliable_sequence_greater_than s2 s1"

section \<open>The sequence buffer\<close>

text \<open>
  \<^verbatim>\<open>
  struct reliable_sequence_buffer_t
  {
      uint16_t sequence;
      int num_entries;
      int entry_stride;
      uint32_t * entry_sequence;
      uint8_t * entry_data;
  };
  \<close>
  The two arrays are lists that hold the contents of the allocated blocks; the length of a
  list is the number of elements of its block. A C \<open>int\<close> has 32 bits: its values are
  the integers of \<open>int_range\<close>, and the result of \<open>+\<close>, \<open>-\<close> and \<open>*\<close> on them is
  reduced to that range by \<open>wrap_int\<close> (two's complement wrap-around) wherever the
  operands do not keep it there by themselves. \<open>size_t\<close> has 64 bits.
\<close>

definition int_range :: "int \<Rightarrow> bool" where
  "int_range x = (- 2147483648 \<le> x \<and> x \<le> 2147483647)"

definition wrap_int :: "int \<Rightarrow> int" where
  "wrap_int x = (x + 2147483648) mod 4294967296 - 2147483648"

definition size_t :: "int \<Rightarrow> int" where
  "size_t x = x mod 18446744073709551616"

record reliable_sequence_buffer_t =
  sequence :: "16 word"
  num_entries :: int
  entry_stride :: int
  entry_sequence :: "32 word list"
  entry_data :: "8 word list"

text \<open>
  What \<open>create\<close> establishes when its assertions hold: a positive capacity and stride,
  both of type \<open>int\<close>, and two blocks of the sizes passed to \<open>malloc\<close>. The size of
  the payload block is the \<open>int\<close> product \<open>num_entries * entry_stride\<close> as C computes
  it, converted to \<open>size_t\<close>.
\<close>

definition valid_buffer :: "reliable_sequence_buffer_t \<Rightarrow> bool" where
  "valid_buffer b =
     (0 < num_entries b \<and> num_entries b \<le> 2147483647 \<and>
      0 < entry_stride b \<and> entry_stride b \<le> 2147483647 \<and>
      int (length (entry_sequence b)) = num_entries b \<and>
      int (length (entry_data b)) = size_t (wrap_int (num_entries b * entry_stride b)))"

text \<open>
  A returned \<open>void *\<close>: either \<open>NULL\<close> or \<open>entry_data + offset\<close>, where the offset is
  the \<open>int\<close> that the code adds to the pointer (negative when the product that gives it
  has wrapped).
\<close>

datatype pointer = NULL | Entry_data int

text \<open>The remainder of C's \<open>%\<close> on \<open>int\<close>: it truncates towards zero.\<close>

definition c_rem :: "int \<Rightarrow> int \<Rightarrow> int" where
  "c_rem a b = sgn a * (\<bar>a\<bar> mod \<bar>b\<bar>)"

text \<open>
  The subscript of \<open>entry_sequence[ v % num_entries ]\<close>. A division by zero and a
  subscript outside the block are undefined behaviour in C: the model stops with \<open>None\<close>.
\<close>

definition tag_index :: "reliable_sequence_buffer_t \<Rightarrow> int \<Rightarrow> nat option" where
  "tag_index b v =
     (if num_entries b = 0 then None
      else (let index = c_rem v (num_entries b)
            in if 0 \<le> index \<and> index < int (length (entry_sequence b))
               then Some (nat index) else None))"

text \<open>
  \<^verbatim>\<open>
  struct reliable_sequence_buffer_t * reliable_sequence_buffer_create( int num_entries, int entry_stride )
  {
      assert( num_entries > 0 );
      assert( entry_stride > 0 );
      struct reliable_sequence_buffer_t * sequence_buffer = (...) malloc( sizeof( struct reliable_sequence_buffer_t ) );
      sequence_buffer->sequence = 0;
      sequence_buffer->num_entries = num_entries;
      sequence_buffer->entry_stride = entry_stride;
      sequence_buffer->entry_sequence = (uint32_t*) malloc( num_entries * sizeof( uint32_t ) );
      sequence_buffer->entry_data = (uint8_t*) malloc( num_entries * entry_stride );
      return sequence_buffer;
  }
  \<close>
  \<open>malloc\<close> does not initialise the block it returns, and \<open>create\<close> writes to neither
  block. The contents the two blocks happen to have are the parameters \<open>tags\<close> and
  \<open>payload\<close>, whose lengths are the sizes of the blocks (\<open>malloc\<close> is taken to
  succeed). \<open>num_entries * sizeof( uint32_t )\<close> is a \<open>size_t\<close> product and does not
  overflow; \<open>num_entries * entry_stride\<close> is an \<open>int\<close> product and wraps. A failed
  assertion is \<open>None\<close>, and so is an argument that is not an \<open>int\<close> or a parameter that
  does not have the size of its block.
\<close>

definition reliable_sequence_buffer_create ::
  "int \<Rightarrow> int \<Rightarrow> 32 word list \<Rightarrow> 8 word list \<Rightarrow> reliable_sequence_buffer_t option" where
  "reliable_sequence_buffer_create n stride tags payload =
     (if int_range n \<and> int_range stride \<and> n > 0 \<and> stride > 0 \<and>
         int (length tags) = n \<and> int (length payload) = size_t (wrap_int (n * stride))
      then Some \<lparr>sequence = 0, num_entries = n, entry_stride = stride,
                  entry_sequence = tags, entry_data = payload\<rparr>
      else None)"

text \<open>
  \<^verbatim>\<open>
  void reliable_sequence_buffer_reset( struct reliable_sequence_buffer_t * sequence_buffer )
  {
      sequence_buffer->sequence = 0;
      memset( sequence_buffer->entry_sequence, 0xFF, sizeof( uint32_t) * sequence_buffer->num_entries );
  }
  \<close>
  Every byte of the first \<open>num_entries\<close> tags becomes \<open>0xFF\<close>; writing past the block
  is \<open>None\<close>.
\<close>

definition reliable_sequence_buffer_reset ::
  "reliable_sequence_buffer_t \<Rightarrow> reliable_sequence_buffer_t option" where
  "reliable_sequence_buffer_reset b =
     (if 0 \<le> num_entries b \<and> num_entries b \<le> int (length (entry_sequence b))
      then Some (b\<lparr>sequence := 0,
                    entry_sequence := replicate (nat (num_entries b)) 0xFFFFFFFF @
                                      drop (nat (num_entries b)) (entry_sequence b)\<rparr>)
      else None)"

text \<open>
  \<^verbatim>\<open>
  void reliable_sequence_buffer_remove_entries( struct reliable_sequence_buffer_t * sequence_buffer, int start_sequence, int finish_sequence )
  {
      if ( finish_sequence < start_sequence )
      {
          finish_sequence += 65535;
      }
      if ( finish_sequence - start_sequence < sequence_buffer->num_entries )
      {
          int sequence;
          for ( sequence = start_sequence; sequence <= finish_sequence; ++sequence )
          {
              sequence_buffer->entry_sequence[ sequence % sequence_buffer->num_entries ] = 0xFFFFFFFF;
          }
      }
      else
      {
          for ( int i = 0; i < sequence_buffer->num_entries; ++i )
          {
              sequence_buffer->entry_sequence[i] = 0xFFFFFFFF;
          }
      }
  }
  \<close>
  The two loops are the two recursive functions below. \<open>finish_sequence += 65535\<close>,
  \<open>finish_sequence - start_sequence\<close> and \<open>++sequence\<close> wrap. When \<open>finish_sequence\<close>
  is the largest \<open>int\<close> the test of the first loop cannot fail: the loop leaves the array
  or runs forever, and both are \<open>None\<close>. The counter of the second loop stays below
  \<open>num_entries\<close> and cannot overflow.
\<close>

partial_function (option) remove_entries_loop ::
  "reliable_sequence_buffer_t \<Rightarrow> int \<Rightarrow> int \<Rightarrow> reliable_sequence_buffer_t option" where
  "remove_entries_loop b sq finish_sequence =
     (if sq \<le> finish_sequence
      then (case tag_index b sq of
              None \<Rightarrow> None
            | Some i \<Rightarrow>
                remove_entries_loop
                  (b\<lparr>entry_sequence := (entry_sequence b)[i := 0xFFFFFFFF]\<rparr>)
                  (wrap_int (sq + 1)) finish_sequence)
      else Some b)"

function remove_all_loop ::
  "reliable_sequence_buffer_t \<Rightarrow> int \<Rightarrow> reliable_sequence_buffer_t option" where
  "remove_all_loop b i =
     (if i < num_entries b
      then (if 0 \<le> i \<and> i < int (length (entry_sequence b))
            then remove_all_loop
                   (b\<lparr>entry_sequence := (entry_sequence b)[nat i := 0xFFFFFFFF]\<rparr>) (i + 1)
            else None)
      else Some b)"
  by pat_completeness auto
termination
  by (relation "measure (\<lambda>(b, i). nat (num_entries b - i))") auto

definition reliable_sequence_buffer_remove_entries ::
  "reliable_sequence_buffer_t \<Rightarrow> int \<Rightarrow> int \<Rightarrow> reliable_sequence_buffer_t option" where
  "reliable_sequence_buffer_remove_entries b start_sequence finish_sequence =
     (let finish_sequence =
            (if finish_sequence < start_sequence then wrap_int (finish_sequence + 65535)
             else finish_sequence)
      in if wrap_int (finish_sequence - start_sequence) < num_entries b
         then remove_entries_loop b start_sequence finish_sequence
         else remove_all_loop b 0)"

text \<open>
  \<^verbatim>\<open>
  void * reliable_sequence_buffer_insert( struct reliable_sequence_buffer_t * sequence_buffer, uint16_t sequence )
  {
      if ( reliable_sequence_greater_than( sequence + 1, sequence_buffer->sequence ) )
      {
          reliable_sequence_buffer_remove_entries( sequence_buffer, sequence_buffer->sequence, sequence );
          sequence_buffer->sequence = sequence + 1;
      }
      else if ( reliable_sequence_less_than( sequence, sequence_buffer->sequence - sequence_buffer->num_entries ) )
      {
          return NULL;
      }
      int index = sequence % sequence_buffer->num_entries;
      sequence_buffer->entry_sequence[index] = sequence;
      return sequence_buffer->entry_data + index * sequence_buffer->entry_stride;
  }
  \<close>
  \<open>sequence + 1\<close> and \<open>sequence_buffer->sequence - num_entries\<close> are \<open>int\<close> values that are
  converted to \<open>uint16_t\<close> where they are passed or stored: \<open>word_of_int\<close> reduces them
  modulo \<open>2 ^ 16\<close>; neither overflows an \<open>int\<close> when \<open>num_entries\<close> is positive.
  The last three lines of the function are \<open>store_entry\<close>, where
  \<open>index * entry_stride\<close> is an \<open>int\<close> product and wraps.
\<close>

definition store_entry ::
  "reliable_sequence_buffer_t \<Rightarrow> 16 word \<Rightarrow> (reliable_sequence_buffer_t \<times> pointer) option" where
  "store_entry b s =
     (case tag_index b (uint s) of
        None \<Rightarrow> None
      | Some index \<Rightarrow>
          Some (b\<lparr>entry_sequence := (entry_sequence b)[index := ucast s]\<rparr>,
                Entry_data (wrap_int (int index * entry_stride b))))"

definition reliable_sequence_buffer_insert ::
  "reliable_sequence_buffer_t \<Rightarrow> 16 word \<Rightarrow> (reliable_sequence_buffer_t \<times> pointer) option" where
  "reliable_sequence_buffer_insert b s =
     (if reliable_sequence_greater_than (word_of_int (uint s + 1)) (sequence b)
      then (case reliable_sequence_buffer_remove_entries b (uint (sequence b)) (uint s) of
              None \<Rightarrow> None
            | Some b1 \<Rightarrow> store_entry (b1\<lparr>sequence := word_of_int (uint s + 1)\<rparr>) s)
      else if reliable_sequence_less_than s
                (word_of_int (uint (sequence b) - num_entries b))
      then Some (b, NULL)
      else store_entry b s)"

text \<open>
  \<^verbatim>\<open>
  void reliable_sequence_buffer_remove( ..., uint16_t sequence )
  {
      sequence_buffer->entry_sequence[ sequence % sequence_buffer->num_entries ] = 0xFFFFFFFF;
  }
  int reliable_sequence_buffer_available( ..., uint16_t sequence )
  {
      return sequence_buffer->entry_sequence[ sequence % sequence_buffer->num_entries ] == 0xFFFFFFFF;
  }
  int reliable_sequence_buffer_exists( ..., uint16_t sequence )
  {
      return sequence_buffer->entry_sequence[ sequence % sequence_buffer->num_entries ] == (uint32_t) sequence;
  }
  void * reliable_sequence_buffer_find( ..., uint16_t sequence )
  {
      int index = sequence % sequence_buffer->num_entries;
      return ( ( sequence_buffer->entry_sequence[index] == (uint32_t) sequence ) ) ? ( sequence_buffer->entry_data + index * sequence_buffer->entry_stride ) : NULL;
  }
  \<close>
\<close>

definition reliable_sequence_buffer_remove ::
  "reliable_sequence_buffer_t \<Rightarrow> 16 word \<Rightarrow> reliable_sequence_buffer_t option" where
  "reliable_sequence_buffer_remove b s =
     (case tag_index b (uint s) of
        None \<Rightarrow> None
      | Some index \<Rightarrow> Some (b\<lparr>entry_sequence := (entry_sequence b)[index := 0xFFFFFFFF]\<rparr>))"

definition reliable_sequence_buffer_available ::
  "reliable_sequence_buffer_t \<Rightarrow> 16 word \<Rightarrow> bool option" where
  "reliable_sequence_buffer_available b s =
     (case tag_index b (uint s) of
        None \<Rightarrow> None
      | Some index \<Rightarrow> Some (entry_sequence b ! index = 0xFFFFFFFF))"

definition reliable_sequence_buffer_exists ::
  "reliable_sequence_buffer_t \<Rightarrow> 16 word \<Rightarrow> bool option" where
  "reliable_sequence_buffer_exists b s =
     (case tag_index b (uint s) of
        None \<Rightarrow> None
      | Some index \<Rightarrow> Some (entry_sequence b ! index = ucast s))"

definition reliable_sequence_buffer_find ::
  "reliable_sequence_buffer_t \<Rightarrow> 16 word \<Rightarrow> pointer option" where
  "reliable_sequence_buffer_find b s =
     (case tag_index b (uint s) of
        None \<Rightarrow> None
      | Some index \<Rightarrow>
          Some (if entry_sequence b ! index = ucast s
                then Entry_data (wrap_int (int index * entry_stride b)) else NULL))"

section \<open>Auxiliary notions for the statements\<close>

text \<open>
  The tag array after the slots selected by \<open>hit\<close> have been set to the empty sentinel
  and every other slot has kept its tag.
\<close>

definition cleared_tags ::
  "reliable_sequence_buffer_t \<Rightarrow> (nat \<Rightarrow> bool) \<Rightarrow> 32 word list" where
  "cleared_tags b hit =
     map (\<lambda>i. if hit i then 0xFFFFFFFF else entry_sequence b ! i)
       [0..<length (entry_sequence b)]"


text \<open>
  The slots that \<open>remove_entries(start, finish)\<close> clears in a buffer of capacity \<open>n\<close> when
  \<open>start\<close> is not negative: the slots \<open>v % n\<close> of the linearised range, or every slot when
  the span reaches the capacity.
\<close>

text \<open>
  The arguments of \<open>remove_entries\<close> on which none of its \<open>int\<close> computations wraps:
  both are of type \<open>int\<close>, \<open>finish + 65535\<close> (when it is computed) and the span are in
  range, and the iteration, when it is chosen, does not reach the largest \<open>int\<close>.
\<close>

definition no_overflow :: "int \<Rightarrow> int \<Rightarrow> int \<Rightarrow> bool" where
  "no_overflow n start finish =
     (let linear_finish = (if finish < start then finish + 65535 else finish)
      in int_range start \<and> int_range finish \<and> int_range linear_finish \<and>
         int_range (linear_finish - start) \<and>
         (linear_finish < 2147483647 \<or> n \<le> linear_finish - start))"

definition evicted :: "int \<Rightarrow> int \<Rightarrow> int \<Rightarrow> nat \<Rightarrow> bool" where
  "evicted n start finish i =
     (let linear_finish = (if finish < start then finish + 65535 else finish)
      in linear_finish - start < n \<longrightarrow> (\<exists>v\<in>{start..linear_finish}. v mod n = int i))"

section \<open>Sequences of operations\<close>

text \<open>
  The operations that change a buffer, and a run of them from a given state. A run stops
  with \<open>None\<close> at the first operation that leaves the tag array.
\<close>

datatype operation =
  Reset | Insert "16 word" | Remove "16 word" | Remove_entries int int

fun apply_operation ::
  "reliable_sequence_buffer_t \<Rightarrow> operation \<Rightarrow> reliable_sequence_buffer_t option" where
  "apply_operation b Reset = reliable_sequence_buffer_reset b"
| "apply_operation b (Insert s) = map_option fst (reliable_sequence_buffer_insert b s)"
| "apply_operation b (Remove s) = reliable_sequence_buffer_remove b s"
| "apply_operation b (Remove_entries start finish) =
     reliable_sequence_buffer_remove_entries b start finish"

fun run ::
  "reliable_sequence_buffer_t \<Rightarrow> operation list \<Rightarrow> reliable_sequence_buffer_t option" where
  "run b [] = Some b"
| "run b (x # xs) = (case apply_operation b x of None \<Rightarrow> None | Some b' \<Rightarrow> run b' xs)"

text \<open>
  The invariant of the tag array: slot \<open>i\<close> is empty or holds a 16-bit sequence number
  \<open>v\<close> with \<open>v % capacity = i\<close>.
\<close>

definition slot_invariant :: "reliable_sequence_buffer_t \<Rightarrow> bool" where
  "slot_invariant b =
     (\<forall>i\<in>{0..<length (entry_sequence b)}.
        entry_sequence b ! i = 0xFFFFFFFF \<or>
        (uint (entry_sequence b ! i) \<le> 65535 \<and>
         uint (entry_sequence b ! i) mod num_entries b = int i))"

text \<open>
  Membership in the inclusive cyclic range of sequence numbers from \<open>start\<close> to
  \<open>finish\<close>: the plain interval when \<open>start \<le> finish\<close>, and otherwise the numbers from
  \<open>start\<close> up to 65535 followed by those from 0 to \<open>finish\<close>.
\<close>

definition cyclic_range_mem :: "16 word \<Rightarrow> 16 word \<Rightarrow> 16 word \<Rightarrow> bool" where
  "cyclic_range_mem start finish t =
     (if uint start \<le> uint finish then uint start \<le> uint t \<and> uint t \<le> uint finish
      else uint start \<le> uint t \<or> uint t \<le> uint finish)"

text \<open>
  Every resident sequence number that is numerically below the newest sequence is at most
  \<open>capacity\<close> behind it. The runs from \<open>reset\<close> keep this when the capacity is at most
  65536.
\<close>

definition residents_behind :: "reliable_sequence_buffer_t \<Rightarrow> bool" where
  "residents_behind b =
     (\<forall>t :: 16 word.
        entry_sequence b ! nat (uint t mod num_entries b) = ucast t \<and>
        uint t < uint (sequence b) \<longrightarrow>
        uint (sequence b) - uint t \<le> num_entries b)"

text \<open>
  What \<open>exists(t)\<close> returns, and what the newest sequence is, after a run of operations.
\<close>

definition exists_after ::
  "reliable_sequence_buffer_t \<Rightarrow> operation list \<Rightarrow> 16 word \<Rightarrow> bool option" where
  "exists_after b xs t =
     (case run b xs of None \<Rightarrow> None | Some b' \<Rightarrow> reliable_sequence_buffer_exists b' t)"

definition sequence_after ::
  "reliable_sequence_buffer_t \<Rightarrow> operation list \<Rightarrow> 16 word option" where
  "sequence_after b xs = map_option sequence (run b xs)"

text \<open>
  A buffer of capacity 65537, one more than there are sequence numbers, as \<open>reset\<close>
  leaves it.
\<close>

definition wide_buffer :: reliable_sequence_buffer_t where
  "wide_buffer =
     \<lparr>sequence = 0, num_entries = 65537, entry_stride = 1,
      entry_sequence = replicate 65537 0xFFFFFFFF, entry_data = replicate 65537 0\<rparr>"

section \<open>Properties of the sequence arithmetic\<close>

text \<open>
  C1: for 16-bit sequence numbers \<open>a \<noteq> b\<close> exactly one of
  \<open>greater_than(a,b)\<close> and \<open>greater_than(b,a)\<close> holds (also when the two are exactly
  32768 apart), and \<open>greater_than(a,a)\<close> is false.
\<close>

theorem sequence_greater_than_total:
  "(a \<noteq> b \<longrightarrow>
      (reliable_sequence_greater_than a b \<and> \<not> reliable_sequence_greater_than b a) \<or>
      (reliable_sequence_greater_than b a \<and> \<not> reliable_sequence_greater_than a b)) \<and>
   \<not> reliable_sequence_greater_than a a"
proof -
  have "a \<noteq> b \<Longrightarrow> uint a \<noteq> uint b"
    by (simp add: word_uint_eq_iff)
  then show ?thesis
    unfolding reliable_sequence_greater_than_def by auto
qed

theorem sequence_greater_than_total_witness:
  "(0 :: 16 word) \<noteq> 32768 \<and>
   reliable_sequence_greater_than 32768 0 \<and> \<not> reliable_sequence_greater_than 0 32768 \<and>
   \<not> reliable_sequence_greater_than 0 0"
  using sequence_greater_than_total [of 0 32768]
  by (simp add: reliable_sequence_greater_than_def)

section \<open>Creation\<close>

text \<open>
  C2: the claim is that every slot of a freshly created buffer holds the empty sentinel,
  so that \<open>available(s)\<close> is true and \<open>exists(s)\<close> is false for every \<open>s\<close>. \<open>create\<close>
  never writes the tag array, so the tags are what \<open>malloc\<close> returned: on two zero-filled
  blocks \<open>create(2, 1)\<close> gives a buffer in which \<open>exists(0)\<close> is true and
  \<open>available(0)\<close> and \<open>available(1)\<close> are false.
\<close>

theorem create_leaves_tags_uninitialised:
  "reliable_sequence_buffer_create 2 1 [0, 0] [0, 0] =
     Some \<lparr>sequence = 0, num_entries = 2, entry_stride = 1,
            entry_sequence = [0, 0], entry_data = [0, 0]\<rparr> \<and>
   reliable_sequence_buffer_exists
     \<lparr>sequence = 0, num_entries = 2, entry_stride = 1,
      entry_sequence = [0, 0], entry_data = [0, 0]\<rparr> 0 = Some True \<and>
   reliable_sequence_buffer_available
     \<lparr>sequence = 0, num_entries = 2, entry_stride = 1,
      entry_sequence = [0, 0], entry_data = [0, 0]\<rparr> 0 = Some False \<and>
   reliable_sequence_buffer_available
     \<lparr>sequence = 0, num_entries = 2, entry_stride = 1,
      entry_sequence = [0, 0], entry_data = [0, 0]\<rparr> 1 = Some False"
  by (simp add: reliable_sequence_buffer_create_def reliable_sequence_buffer_exists_def
      reliable_sequence_buffer_available_def tag_index_def c_rem_def
      int_range_def wrap_int_def size_t_def)

section \<open>The eviction of a range\<close>

lemma c_rem_nonneg: "0 \<le> a \<Longrightarrow> 0 < b \<Longrightarrow> c_rem a b = a mod b"
  by (cases "a = 0") (simp_all add: c_rem_def)

lemma tag_index_valid:
  "valid_buffer b \<Longrightarrow> 0 \<le> v \<Longrightarrow> tag_index b v = Some (nat (v mod num_entries b))"
  by (simp add: tag_index_def valid_buffer_def c_rem_nonneg Let_def)

lemma tag_index_update [simp]:
  "length es = length (entry_sequence b) \<Longrightarrow>
   tag_index (b\<lparr>entry_sequence := es\<rparr>) v = tag_index b v"
  by (simp add: tag_index_def)

lemma tag_index_sequence [simp]: "tag_index (b\<lparr>sequence := q\<rparr>) v = tag_index b v"
  by (simp add: tag_index_def)

lemma length_cleared_tags [simp]: "length (cleared_tags b hit) = length (entry_sequence b)"
  by (simp add: cleared_tags_def)

lemma nth_cleared_tags:
  "i < length (entry_sequence b) \<Longrightarrow>
   cleared_tags b hit ! i = (if hit i then 0xFFFFFFFF else entry_sequence b ! i)"
  by (simp add: cleared_tags_def)

lemma cleared_tags_none: "cleared_tags b (\<lambda>i. False) = entry_sequence b"
  by (simp add: cleared_tags_def map_nth)

lemma cleared_tags_cong:
  "(\<And>i. i < length (entry_sequence b) \<Longrightarrow> f i = g i) \<Longrightarrow> cleared_tags b f = cleared_tags b g"
  by (simp add: cleared_tags_def)

lemma remove_all_loop_eq:
  "0 \<le> i \<Longrightarrow>
   remove_all_loop b i =
     (if i < num_entries b \<and> int (length (entry_sequence b)) < num_entries b then None
      else Some (b\<lparr>entry_sequence :=
                    cleared_tags b (\<lambda>j. i \<le> int j \<and> int j < num_entries b)\<rparr>))"
proof (induction b i rule: remove_all_loop.induct)
  case (1 b i)
  show ?case
  proof (cases "i < num_entries b")
    case False
    then have "cleared_tags b (\<lambda>j. i \<le> int j \<and> int j < num_entries b) = entry_sequence b"
      by (auto simp: cleared_tags_def intro!: nth_equalityI)
    with False show ?thesis
      by (subst remove_all_loop.simps) simp
  next
    case True
    show ?thesis
    proof (cases "i < int (length (entry_sequence b))")
      case False
      with True "1.prems" show ?thesis
        by (subst remove_all_loop.simps) simp
    next
      case inside: True
      let ?b = "b\<lparr>entry_sequence := (entry_sequence b)[nat i := 0xFFFFFFFF]\<rparr>"
      have ih: "remove_all_loop ?b (i + 1) =
         (if i + 1 < num_entries ?b \<and> int (length (entry_sequence ?b)) < num_entries ?b
          then None
          else Some (?b\<lparr>entry_sequence :=
                 cleared_tags ?b (\<lambda>j. i + 1 \<le> int j \<and> int j < num_entries ?b)\<rparr>))"
        using "1.IH" [OF True] inside "1.prems" by simp
      have tags: "cleared_tags ?b (\<lambda>j. i + 1 \<le> int j \<and> int j < num_entries b) =
            cleared_tags b (\<lambda>j. i \<le> int j \<and> int j < num_entries b)"
        unfolding cleared_tags_def using True inside "1.prems"
        by (auto simp: nth_list_update)
      have "remove_all_loop b i = remove_all_loop ?b (i + 1)"
        using True inside "1.prems" by (subst remove_all_loop.simps) simp
      also note ih
      finally show ?thesis
        using tags True inside by auto
    qed
  qed
qed

lemma wrap_int_id: "int_range x \<Longrightarrow> wrap_int x = x"
  unfolding int_range_def wrap_int_def by (simp add: mod_pos_pos_trivial)

lemma nth_update_cases:
  "xs[i := x] ! j = (if i = j \<and> i < length xs then x else xs ! j)"
  by (cases "i < length xs") (auto simp: nth_list_update list_update_beyond)

lemma cleared_tags_update:
  "cleared_tags (b\<lparr>entry_sequence := (entry_sequence b)[i := 0xFFFFFFFF]\<rparr>) hit =
   cleared_tags b (\<lambda>j. hit j \<or> j = i)"
  by (auto simp: cleared_tags_def nth_update_cases)

text \<open>The first loop, as long as its counter does not wrap.\<close>

lemma remove_entries_loop_eq:
  assumes "- 2147483648 \<le> sq" and "fin < 2147483647"
  shows "remove_entries_loop b sq fin =
     (if \<forall>v\<in>{sq..fin}. tag_index b v \<noteq> None
      then Some (b\<lparr>entry_sequence :=
                    cleared_tags b (\<lambda>i. \<exists>v\<in>{sq..fin}. tag_index b v = Some i)\<rparr>)
      else None)"
  using assms(1)
proof (induction "nat (fin + 1 - sq)" arbitrary: b sq)
  case 0
  then have "\<not> sq \<le> fin"
    by simp
  then show ?case
    by (subst remove_entries_loop.simps) (simp add: cleared_tags_none)
next
  case (Suc k)
  then have True: "sq \<le> fin"
    by linarith
  then have split: "{sq..fin} = insert sq {sq + 1..fin}"
    by auto
  have next_sq: "wrap_int (sq + 1) = sq + 1"
    using True Suc.prems assms(2) by (intro wrap_int_id) (simp add: int_range_def)
  show ?case
  proof (cases "tag_index b sq")
    case None
    with True show ?thesis
      by (subst remove_entries_loop.simps) auto
  next
    case (Some i)
    let ?b = "b\<lparr>entry_sequence := (entry_sequence b)[i := 0xFFFFFFFF]\<rparr>"
    have "k = nat (fin + 1 - (sq + 1))" and "- 2147483648 \<le> sq + 1"
      using Suc.hyps(2) Suc.prems by linarith+
    then have ih: "remove_entries_loop ?b (sq + 1) fin =
       (if \<forall>v\<in>{sq + 1..fin}. tag_index ?b v \<noteq> None
        then Some (?b\<lparr>entry_sequence :=
                  cleared_tags ?b (\<lambda>i. \<exists>v\<in>{sq + 1..fin}. tag_index ?b v = Some i)\<rparr>)
        else None)"
      by (rule Suc.hyps(1))
    have tags: "cleared_tags ?b (\<lambda>j. \<exists>v\<in>{sq + 1..fin}. tag_index b v = Some j) =
          cleared_tags b (\<lambda>j. \<exists>v\<in>{sq..fin}. tag_index b v = Some j)"
      unfolding cleared_tags_update split using Some
      by (intro cleared_tags_cong) auto
    have "remove_entries_loop b sq fin = remove_entries_loop ?b (sq + 1) fin"
      using True Some next_sq by (subst remove_entries_loop.simps) simp
    also note ih
    finally show ?thesis
      using Some tags unfolding split by simp
  qed
qed

text \<open>Whatever the arguments, a loop that returns has only cleared slots.\<close>

lemma remove_entries_loop_Some:
  assumes "remove_entries_loop b sq fin = Some b'"
  shows "\<exists>hit. b' = b\<lparr>entry_sequence := cleared_tags b hit\<rparr>"
proof (rule remove_entries_loop.raw_induct
    [where P = "\<lambda>b sq fin b'. \<exists>hit. b' = b\<lparr>entry_sequence := cleared_tags b hit\<rparr>",
      OF _ assms])
  fix loop :: "reliable_sequence_buffer_t \<Rightarrow> int \<Rightarrow> int \<Rightarrow> reliable_sequence_buffer_t option"
    and b sq fin c
  assume ih: "\<And>b sq fin y. loop b sq fin = Some y \<Longrightarrow>
      \<exists>hit. y = b\<lparr>entry_sequence := cleared_tags b hit\<rparr>"
    and step: "(if sq \<le> fin
      then (case tag_index b sq of
              None \<Rightarrow> None
            | Some i \<Rightarrow>
                loop (b\<lparr>entry_sequence := (entry_sequence b)[i := 0xFFFFFFFF]\<rparr>)
                  (wrap_int (sq + 1)) fin)
      else Some b) = Some c"
  show "\<exists>hit. c = b\<lparr>entry_sequence := cleared_tags b hit\<rparr>"
  proof (cases "sq \<le> fin")
    case False
    with step have "c = b\<lparr>entry_sequence := cleared_tags b (\<lambda>i. False)\<rparr>"
      by (simp add: cleared_tags_none)
    then show ?thesis by blast
  next
    case True
    with step obtain i where
      "loop (b\<lparr>entry_sequence := (entry_sequence b)[i := 0xFFFFFFFF]\<rparr>)
         (wrap_int (sq + 1)) fin = Some c"
      by (auto split: option.splits)
    from ih [OF this] obtain hit where
      "c = b\<lparr>entry_sequence := cleared_tags b (\<lambda>j. hit j \<or> j = i)\<rparr>"
      by (auto simp: cleared_tags_update)
    then show ?thesis by blast
  qed
qed

lemma valid_buffer_update [simp]:
  "length es = length (entry_sequence b) \<Longrightarrow>
   valid_buffer (b\<lparr>entry_sequence := es\<rparr>) = valid_buffer b"
  by (simp add: valid_buffer_def)

lemma valid_buffer_sequence [simp]:
  "valid_buffer (b\<lparr>sequence := q\<rparr>) = valid_buffer b"
  by (simp add: valid_buffer_def)

lemma slot_less:
  "valid_buffer b \<Longrightarrow> 0 \<le> v \<Longrightarrow> nat (v mod num_entries b) < length (entry_sequence b)"
  by (simp add: valid_buffer_def nat_less_iff)

text \<open>Without overflow the wrapped computations of \<open>remove_entries\<close> are the plain ones.\<close>

lemma remove_entries_no_overflow:
  assumes "no_overflow (num_entries b) start finish"
  shows "reliable_sequence_buffer_remove_entries b start finish =
     (let lf = (if finish < start then finish + 65535 else finish)
      in if lf - start < num_entries b
         then (if \<forall>v\<in>{start..lf}. tag_index b v \<noteq> None
               then Some (b\<lparr>entry_sequence :=
                      cleared_tags b (\<lambda>i. \<exists>v\<in>{start..lf}. tag_index b v = Some i)\<rparr>)
               else None)
         else remove_all_loop b 0)"
proof -
  define lf where "lf = (if finish < start then finish + 65535 else finish)"
  from assms have range: "int_range start" "int_range lf" "int_range (lf - start)"
    and last: "lf < 2147483647 \<or> num_entries b \<le> lf - start"
    by (simp_all add: no_overflow_def lf_def Let_def)
  have lf: "(if finish < start then wrap_int (finish + 65535) else finish) = lf"
    using range(2) by (auto simp: lf_def wrap_int_id)
  have span: "wrap_int (lf - start) = lf - start"
    using range(3) by (rule wrap_int_id)
  have "remove_entries_loop b start lf =
     (if \<forall>v\<in>{start..lf}. tag_index b v \<noteq> None
      then Some (b\<lparr>entry_sequence :=
                  cleared_tags b (\<lambda>i. \<exists>v\<in>{start..lf}. tag_index b v = Some i)\<rparr>)
      else None)" if "lf - start < num_entries b"
    using that last range(1) by (intro remove_entries_loop_eq) (simp_all add: int_range_def)
  then show ?thesis
    unfolding reliable_sequence_buffer_remove_entries_def Let_def lf span lf_def [symmetric]
    by simp
qed

lemma remove_entries_valid:
  assumes "valid_buffer b" and "0 \<le> start"
    and "no_overflow (num_entries b) start finish"
  shows "reliable_sequence_buffer_remove_entries b start finish =
           Some (b\<lparr>entry_sequence := cleared_tags b (evicted (num_entries b) start finish)\<rparr>)"
proof -
  define lf where "lf = (if finish < start then finish + 65535 else finish)"
  have len: "int (length (entry_sequence b)) = num_entries b" and pos: "0 < num_entries b"
    using assms(1) by (simp_all add: valid_buffer_def)
  show ?thesis
  proof (cases "lf - start < num_entries b")
    case True
    have idx: "tag_index b v = Some (nat (v mod num_entries b))" if "v \<in> {start..lf}" for v
      using that assms by (simp add: tag_index_valid)
    have "cleared_tags b (\<lambda>i. \<exists>v\<in>{start..lf}. tag_index b v = Some i) =
          cleared_tags b (evicted (num_entries b) start finish)"
    proof (rule cleared_tags_cong)
      fix i assume "i < length (entry_sequence b)"
      have "(\<exists>v\<in>{start..lf}. tag_index b v = Some i) = (\<exists>v\<in>{start..lf}. v mod num_entries b = int i)"
        using idx pos by (auto simp: nat_eq_iff)
      then show "(\<exists>v\<in>{start..lf}. tag_index b v = Some i) = evicted (num_entries b) start finish i"
        using True by (simp add: evicted_def lf_def)
    qed
    moreover have "\<forall>v\<in>{start..lf}. tag_index b v \<noteq> None"
      using idx by simp
    ultimately show ?thesis
      using True
      by (simp add: remove_entries_no_overflow [OF assms(3)] lf_def [symmetric])
  next
    case False
    have "cleared_tags b (\<lambda>j. 0 \<le> int j \<and> int j < num_entries b) =
          cleared_tags b (evicted (num_entries b) start finish)"
      using False len by (intro cleared_tags_cong) (simp add: evicted_def lf_def)
    then show ?thesis
      using False len
      by (simp add: remove_entries_no_overflow [OF assms(3)] remove_all_loop_eq
          lf_def [symmetric] del: remove_all_loop.simps)
  qed
qed




section \<open>Insertion, removal and lookup\<close>

lemma replicate32:
  "replicate 32 x = [x, x, x, x, x, x, x, x, x, x, x, x, x, x, x, x,
                     x, x, x, x, x, x, x, x, x, x, x, x, x, x, x, x]"
  by (simp add: numeral_eq_Suc)

lemmas evaluate_insert =
  reliable_sequence_buffer_insert_def reliable_sequence_buffer_remove_entries_def
  remove_entries_loop.simps reliable_sequence_greater_than_def
  reliable_sequence_less_than_def store_entry_def tag_index_def c_rem_def wrap_int_def

lemmas valid_buffer_eval = valid_buffer_def wrap_int_def size_t_def int_range_def

lemma no_overflow_sequences:
  "0 \<le> start \<Longrightarrow> start < 65536 \<Longrightarrow> 0 \<le> finish \<Longrightarrow> finish < 65536 \<Longrightarrow>
   no_overflow n start finish"
  by (auto simp: no_overflow_def int_range_def Let_def)

lemma no_overflow_uint16:
  fixes q s :: "16 word"
  shows "no_overflow n (uint q) (uint s)"
  using uint_lt2p [of q] uint_lt2p [of s] by (intro no_overflow_sequences) simp_all

lemma store_entry_valid:
  "valid_buffer b \<Longrightarrow>
   store_entry b s =
     Some (b\<lparr>entry_sequence := (entry_sequence b)[nat (uint s mod num_entries b) := ucast s]\<rparr>,
           Entry_data (wrap_int (uint s mod num_entries b * entry_stride b)))"
  by (simp add: store_entry_def tag_index_valid valid_buffer_def)

lemma insert_advance:
  assumes "valid_buffer b"
    and "reliable_sequence_greater_than (word_of_int (uint s + 1)) (sequence b)"
  shows "reliable_sequence_buffer_insert b s =
     Some (b\<lparr>sequence := s + 1,
             entry_sequence :=
               (cleared_tags b (evicted (num_entries b) (uint (sequence b)) (uint s)))
                 [nat (uint s mod num_entries b) := ucast s]\<rparr>,
           Entry_data (wrap_int (uint s mod num_entries b * entry_stride b)))"
proof -
  let ?b1 = "b\<lparr>entry_sequence :=
                cleared_tags b (evicted (num_entries b) (uint (sequence b)) (uint s))\<rparr>"
  have "valid_buffer (?b1\<lparr>sequence := word_of_int (uint s + 1)\<rparr>)"
    using assms(1) by simp
  from store_entry_valid [OF this, of s] show ?thesis
    using assms no_overflow_uint16 [of "num_entries b" "sequence b" s]
    by (simp add: reliable_sequence_buffer_insert_def remove_entries_valid)
qed

lemma insert_keep:
  assumes "valid_buffer b"
    and "\<not> reliable_sequence_greater_than (word_of_int (uint s + 1)) (sequence b)"
    and "\<not> reliable_sequence_less_than s (word_of_int (uint (sequence b) - num_entries b))"
  shows "reliable_sequence_buffer_insert b s =
     Some (b\<lparr>entry_sequence := (entry_sequence b)[nat (uint s mod num_entries b) := ucast s]\<rparr>,
           Entry_data (wrap_int (uint s mod num_entries b * entry_stride b)))"
  using assms by (simp add: reliable_sequence_buffer_insert_def store_entry_valid)

lemma insert_reject:
  assumes "\<not> reliable_sequence_greater_than (word_of_int (uint s + 1)) (sequence b)"
    and "reliable_sequence_less_than s (word_of_int (uint (sequence b) - num_entries b))"
  shows "reliable_sequence_buffer_insert b s = Some (b, NULL)"
  using assms by (simp add: reliable_sequence_buffer_insert_def)

lemma ucast_not_empty: "(ucast (s :: 16 word) :: 32 word) \<noteq> 0xFFFFFFFF"
proof
  assume "(ucast s :: 32 word) = 0xFFFFFFFF"
  then have "uint (ucast s :: 32 word) = uint (0xFFFFFFFF :: 32 word)"
    by simp
  then have "uint s = 4294967295"
    by (simp add: uint_up_ucast is_up)
  moreover have "uint s < 65536"
    using uint_lt2p [of s] by simp
  ultimately show False by simp
qed

text \<open>
  C5: \<open>insert(s)\<close> returns \<open>NULL\<close> exactly when \<open>s + 1\<close> is not more recent than the newest
  sequence and \<open>s\<close> is older than \<open>newest - capacity\<close> (modulo \<open>2 ^ 16\<close>); a rejected insert
  leaves the whole buffer (tags, newest sequence, payload) as it was. On a valid buffer the
  insert never reads or writes outside the tag array.
\<close>

theorem insert_rejected_iff:
  "((\<exists>b'. reliable_sequence_buffer_insert b s = Some (b', NULL)) \<longleftrightarrow>
      (\<not> reliable_sequence_greater_than (word_of_int (uint s + 1)) (sequence b) \<and>
       reliable_sequence_less_than s (word_of_int (uint (sequence b) - num_entries b)))) \<and>
   (\<forall>b'. reliable_sequence_buffer_insert b s = Some (b', NULL) \<longrightarrow> b' = b) \<and>
   (valid_buffer b \<longrightarrow> reliable_sequence_buffer_insert b s \<noteq> None)"
proof -
  have "reliable_sequence_buffer_insert b s \<noteq> None" if "valid_buffer b"
    using insert_advance [OF that, of s] insert_keep [OF that, of s] insert_reject [of s b]
    by (cases "reliable_sequence_greater_than (word_of_int (uint s + 1)) (sequence b)";
        cases "reliable_sequence_less_than s (word_of_int (uint (sequence b) - num_entries b))")
       simp_all
  then show ?thesis
    by (auto simp: reliable_sequence_buffer_insert_def store_entry_def split: option.splits)
qed


theorem insert_rejected_iff_witness:
  "reliable_sequence_buffer_insert
     \<lparr>sequence = 5, num_entries = 4, entry_stride = 2,
      entry_sequence = [4, 0xFFFFFFFF, 2, 3], entry_data = [0, 0, 0, 0, 0, 0, 0, 0]\<rparr> 0 =
   Some (\<lparr>sequence = 5, num_entries = 4, entry_stride = 2,
      entry_sequence = [4, 0xFFFFFFFF, 2, 3], entry_data = [0, 0, 0, 0, 0, 0, 0, 0]\<rparr>, NULL) \<and>
   \<not> reliable_sequence_greater_than (word_of_int (uint (0 :: 16 word) + 1)) 5 \<and>
   reliable_sequence_less_than 0 (word_of_int (uint (5 :: 16 word) - 4)) \<and>
   reliable_sequence_buffer_insert
     \<lparr>sequence = 5, num_entries = 4, entry_stride = 2,
      entry_sequence = [4, 0xFFFFFFFF, 2, 3], entry_data = [0, 0, 0, 0, 0, 0, 0, 0]\<rparr> 1 =
   Some (\<lparr>sequence = 5, num_entries = 4, entry_stride = 2,
      entry_sequence = [4, 1, 2, 3], entry_data = [0, 0, 0, 0, 0, 0, 0, 0]\<rparr>, Entry_data 2) \<and>
   \<not> reliable_sequence_less_than 1 (word_of_int (uint (5 :: 16 word) - 4))"
  using insert_rejected_iff
    [of "\<lparr>sequence = 5, num_entries = 4, entry_stride = 2,
         entry_sequence = [4, 0xFFFFFFFF, 2, 3], entry_data = [0, 0, 0, 0, 0, 0, 0, 0]\<rparr>" 0]
  by (simp add: reliable_sequence_buffer_insert_def reliable_sequence_greater_than_def
      reliable_sequence_less_than_def store_entry_def tag_index_def c_rem_def wrap_int_def)

text \<open>
  C6, amended: when \<open>s + 1\<close> is more recent than the newest sequence, \<open>insert(s)\<close> never
  returns \<open>NULL\<close>; and when the \<open>int\<close> product \<open>num_entries * entry_stride\<close> does not
  overflow, the pointer it returns is the payload area of slot \<open>s % capacity\<close>, which
  lies inside the payload block.
\<close>

theorem insert_fresh_never_rejected:
  assumes "valid_buffer b"
    and "reliable_sequence_greater_than (word_of_int (uint s + 1)) (sequence b)"
  shows "(\<exists>b' offset. reliable_sequence_buffer_insert b s = Some (b', Entry_data offset) \<and>
            valid_buffer b' \<and> num_entries b' = num_entries b \<and>
            entry_stride b' = entry_stride b \<and> entry_data b' = entry_data b) \<and>
         (num_entries b * entry_stride b \<le> 2147483647 \<longrightarrow>
            (\<exists>b'. reliable_sequence_buffer_insert b s =
                    Some (b', Entry_data (uint s mod num_entries b * entry_stride b))) \<and>
            0 \<le> uint s mod num_entries b * entry_stride b \<and>
            uint s mod num_entries b * entry_stride b + entry_stride b
              \<le> int (length (entry_data b)))"
proof -
  have pos: "0 < num_entries b" "0 < entry_stride b"
    and len: "int (length (entry_data b)) = size_t (wrap_int (num_entries b * entry_stride b))"
    using assms(1) by (simp_all add: valid_buffer_def)
  have first: "\<exists>b' offset. reliable_sequence_buffer_insert b s = Some (b', Entry_data offset) \<and>
            valid_buffer b' \<and> num_entries b' = num_entries b \<and>
            entry_stride b' = entry_stride b \<and> entry_data b' = entry_data b"
    using assms by (simp add: insert_advance)
  have second: "(\<exists>b'. reliable_sequence_buffer_insert b s =
                    Some (b', Entry_data (uint s mod num_entries b * entry_stride b))) \<and>
            0 \<le> uint s mod num_entries b * entry_stride b \<and>
            uint s mod num_entries b * entry_stride b + entry_stride b
              \<le> int (length (entry_data b))"
    if fits: "num_entries b * entry_stride b \<le> 2147483647"
  proof -
    have "uint s mod num_entries b + 1 \<le> num_entries b"
      using pos by (simp add: add1_zle_eq)
    then have "(uint s mod num_entries b + 1) * entry_stride b
        \<le> num_entries b * entry_stride b"
      using pos by (intro mult_right_mono) simp_all
    then have inside: "uint s mod num_entries b * entry_stride b + entry_stride b
        \<le> num_entries b * entry_stride b"
      by (simp add: distrib_right)
    have low: "0 \<le> uint s mod num_entries b * entry_stride b"
      using pos by simp
    have "0 \<le> num_entries b * entry_stride b"
      using pos by simp
    with fits have "size_t (wrap_int (num_entries b * entry_stride b)) =
        num_entries b * entry_stride b"
      by (simp add: wrap_int_id int_range_def size_t_def)
    moreover have "- 2147483648 \<le> uint s mod num_entries b * entry_stride b"
      and "uint s mod num_entries b * entry_stride b \<le> 2147483647"
      using low inside fits pos by linarith+
    then have "wrap_int (uint s mod num_entries b * entry_stride b) =
        uint s mod num_entries b * entry_stride b"
      by (intro wrap_int_id) (simp add: int_range_def)
    ultimately show ?thesis
      using assms inside low len by (simp add: insert_advance)
  qed
  from first second show ?thesis
    by blast
qed

theorem insert_fresh_never_rejected_witness:
  "valid_buffer
     \<lparr>sequence = 5, num_entries = 4, entry_stride = 2,
      entry_sequence = [4, 0xFFFFFFFF, 2, 3], entry_data = [0, 0, 0, 0, 0, 0, 0, 0]\<rparr> \<and>
   reliable_sequence_greater_than (word_of_int (uint (6 :: 16 word) + 1)) 5 \<and>
   (4 :: int) * 2 \<le> 2147483647 \<and>
   reliable_sequence_buffer_insert
     \<lparr>sequence = 5, num_entries = 4, entry_stride = 2,
      entry_sequence = [4, 0xFFFFFFFF, 2, 3], entry_data = [0, 0, 0, 0, 0, 0, 0, 0]\<rparr> 6 =
   Some (\<lparr>sequence = 7, num_entries = 4, entry_stride = 2,
      entry_sequence = [4, 0xFFFFFFFF, 6, 3], entry_data = [0, 0, 0, 0, 0, 0, 0, 0]\<rparr>,
      Entry_data 4)"
proof -
  let ?b = "\<lparr>sequence = 5, num_entries = 4, entry_stride = 2,
      entry_sequence = [4, 0xFFFFFFFF, 2, 3], entry_data = [0, 0, 0, 0, 0, 0, 0, 0]\<rparr>"
  have v: "valid_buffer ?b"
    by (simp add: valid_buffer_eval)
  have g: "reliable_sequence_greater_than (word_of_int (uint (6 :: 16 word) + 1)) (sequence ?b)"
    by (simp add: reliable_sequence_greater_than_def)
  from insert_fresh_never_rejected [OF v g] v g show ?thesis
    by (simp add: evaluate_insert)
qed

text \<open>
  The claim as stated, for every buffer, fails where \<open>num_entries * entry_stride\<close>
  overflows. \<open>create(4, 1073741824)\<close> passes both assertions and allocates a payload block
  of \<open>4 * 1073741824 = 0\<close> bytes. After \<open>reset\<close>, \<open>3 + 1\<close> is more recent than the newest
  sequence 0, and \<open>insert(3)\<close> returns \<open>entry_data + 3 * 1073741824\<close>, which is
  \<open>entry_data - 1073741824\<close>: not \<open>NULL\<close>, and not a slot of the block.
\<close>

theorem insert_fresh_overflow_counterexample:
  "reliable_sequence_buffer_create 4 1073741824 [7, 7, 7, 7] [] =
     Some \<lparr>sequence = 0, num_entries = 4, entry_stride = 1073741824,
            entry_sequence = [7, 7, 7, 7], entry_data = []\<rparr> \<and>
   reliable_sequence_buffer_reset
     \<lparr>sequence = 0, num_entries = 4, entry_stride = 1073741824,
      entry_sequence = [7, 7, 7, 7], entry_data = []\<rparr> =
     Some \<lparr>sequence = 0, num_entries = 4, entry_stride = 1073741824,
            entry_sequence = [0xFFFFFFFF, 0xFFFFFFFF, 0xFFFFFFFF, 0xFFFFFFFF],
            entry_data = []\<rparr> \<and>
   valid_buffer
     \<lparr>sequence = 0, num_entries = 4, entry_stride = 1073741824,
      entry_sequence = [0xFFFFFFFF, 0xFFFFFFFF, 0xFFFFFFFF, 0xFFFFFFFF],
      entry_data = []\<rparr> \<and>
   reliable_sequence_greater_than (word_of_int (uint (3 :: 16 word) + 1)) 0 \<and>
   reliable_sequence_buffer_insert
     \<lparr>sequence = 0, num_entries = 4, entry_stride = 1073741824,
      entry_sequence = [0xFFFFFFFF, 0xFFFFFFFF, 0xFFFFFFFF, 0xFFFFFFFF],
      entry_data = []\<rparr> 3 =
     Some (\<lparr>sequence = 4, num_entries = 4, entry_stride = 1073741824,
             entry_sequence = [0xFFFFFFFF, 0xFFFFFFFF, 0xFFFFFFFF, 3], entry_data = []\<rparr>,
           Entry_data (- 1073741824))"
proof -
  let ?raw = "\<lparr>sequence = 0, num_entries = 4, entry_stride = 1073741824,
            entry_sequence = [7, 7, 7, 7], entry_data = []\<rparr>"
  let ?empty = "\<lparr>sequence = 0, num_entries = 4, entry_stride = 1073741824,
            entry_sequence = [0xFFFFFFFF, 0xFFFFFFFF, 0xFFFFFFFF, 0xFFFFFFFF],
            entry_data = []\<rparr>"
  have "replicate 4 x = [x, x, x, x]" for x :: "32 word"
    by (simp add: eval_nat_numeral)
  then have r: "reliable_sequence_buffer_reset ?raw = Some ?empty"
    by (simp add: reliable_sequence_buffer_reset_def)
  have c: "reliable_sequence_buffer_create 4 1073741824 [7, 7, 7, 7] [] = Some ?raw"
    by (simp add: reliable_sequence_buffer_create_def int_range_def wrap_int_def size_t_def)
  have v: "valid_buffer ?empty"
    by (simp add: valid_buffer_eval)
  have g: "reliable_sequence_greater_than (word_of_int (uint (3 :: 16 word) + 1)) 0"
    by (simp add: reliable_sequence_greater_than_def)
  have i: "reliable_sequence_buffer_insert ?empty 3 =
     Some (\<lparr>sequence = 4, num_entries = 4, entry_stride = 1073741824,
             entry_sequence = [0xFFFFFFFF, 0xFFFFFFFF, 0xFFFFFFFF, 3], entry_data = []\<rparr>,
           Entry_data (- 1073741824))"
    by (simp add: evaluate_insert)
  from c r v g i show ?thesis
    by blast
qed

text \<open>
  C7, amended: if \<open>insert(s)\<close> returns a slot, then right afterwards \<open>exists(s)\<close> is true
  and \<open>find(s)\<close> returns the same pointer; when the \<open>int\<close> product
  \<open>num_entries * entry_stride\<close> does not overflow, that pointer is the payload area of
  slot \<open>s % capacity\<close>; and whenever \<open>exists(t)\<close> is false, \<open>find(t)\<close> returns \<open>NULL\<close>.
\<close>

theorem insert_then_find:
  assumes "valid_buffer b"
  shows "(\<forall>b' p. reliable_sequence_buffer_insert b s = Some (b', p) \<and> p \<noteq> NULL \<longrightarrow>
            reliable_sequence_buffer_exists b' s = Some True \<and>
            reliable_sequence_buffer_find b' s = Some p \<and>
            (num_entries b * entry_stride b \<le> 2147483647 \<longrightarrow>
               p = Entry_data (uint s mod num_entries b * entry_stride b))) \<and>
         (\<forall>t. reliable_sequence_buffer_exists b t \<noteq> None \<and>
              (reliable_sequence_buffer_exists b t = Some False \<longrightarrow>
               reliable_sequence_buffer_find b t = Some NULL))"
proof -
  have slot: "nat (uint s mod num_entries b) < length (entry_sequence b)"
    using assms by (simp add: slot_less)
  have pos: "0 < num_entries b" "0 < entry_stride b"
    using assms by (simp_all add: valid_buffer_def)
  have area: "wrap_int (uint s mod num_entries b * entry_stride b) =
      uint s mod num_entries b * entry_stride b"
    if fits: "num_entries b * entry_stride b \<le> 2147483647"
  proof -
    have "uint s mod num_entries b \<le> num_entries b"
      using pos by (simp add: less_imp_le)
    then have "uint s mod num_entries b * entry_stride b \<le> num_entries b * entry_stride b"
      using pos by (intro mult_right_mono) simp_all
    moreover have "0 \<le> uint s mod num_entries b * entry_stride b"
      using pos by simp
    ultimately have "- 2147483648 \<le> uint s mod num_entries b * entry_stride b"
      and "uint s mod num_entries b * entry_stride b \<le> 2147483647"
      using fits by linarith+
    then show ?thesis
      by (intro wrap_int_id) (simp add: int_range_def)
  qed
  have stored: "reliable_sequence_buffer_exists b' s = Some True \<and>
            reliable_sequence_buffer_find b' s = Some p \<and>
            (num_entries b * entry_stride b \<le> 2147483647 \<longrightarrow>
               p = Entry_data (uint s mod num_entries b * entry_stride b))"
    if ins: "reliable_sequence_buffer_insert b s = Some (b', p)" and "p \<noteq> NULL" for b' p
  proof (cases "reliable_sequence_greater_than (word_of_int (uint s + 1)) (sequence b)")
    case True
    from insert_advance [OF assms True] ins slot assms area show ?thesis
      by (auto simp: reliable_sequence_buffer_exists_def reliable_sequence_buffer_find_def
          tag_index_valid valid_buffer_def)
  next
    case False
    with ins \<open>p \<noteq> NULL\<close>
    have "\<not> reliable_sequence_less_than s (word_of_int (uint (sequence b) - num_entries b))"
      by (auto simp: reliable_sequence_buffer_insert_def)
    from insert_keep [OF assms False this] ins slot assms area show ?thesis
      by (auto simp: reliable_sequence_buffer_exists_def reliable_sequence_buffer_find_def
          tag_index_valid valid_buffer_def)
  qed
  have "reliable_sequence_buffer_exists b t \<noteq> None \<and>
        (reliable_sequence_buffer_exists b t = Some False \<longrightarrow>
         reliable_sequence_buffer_find b t = Some NULL)" for t
    using assms
    by (simp add: reliable_sequence_buffer_exists_def reliable_sequence_buffer_find_def
        tag_index_valid)
  with stored show ?thesis by blast
qed

theorem insert_then_find_witness:
  "valid_buffer
     \<lparr>sequence = 5, num_entries = 4, entry_stride = 2,
      entry_sequence = [4, 0xFFFFFFFF, 2, 3], entry_data = [0, 0, 0, 0, 0, 0, 0, 0]\<rparr> \<and>
   (4 :: int) * 2 \<le> 2147483647 \<and>
   reliable_sequence_buffer_insert
     \<lparr>sequence = 5, num_entries = 4, entry_stride = 2,
      entry_sequence = [4, 0xFFFFFFFF, 2, 3], entry_data = [0, 0, 0, 0, 0, 0, 0, 0]\<rparr> 6 =
   Some (\<lparr>sequence = 7, num_entries = 4, entry_stride = 2,
      entry_sequence = [4, 0xFFFFFFFF, 6, 3], entry_data = [0, 0, 0, 0, 0, 0, 0, 0]\<rparr>,
      Entry_data 4) \<and>
   reliable_sequence_buffer_exists
     \<lparr>sequence = 7, num_entries = 4, entry_stride = 2,
      entry_sequence = [4, 0xFFFFFFFF, 6, 3], entry_data = [0, 0, 0, 0, 0, 0, 0, 0]\<rparr> 6 = Some True \<and>
   reliable_sequence_buffer_find
     \<lparr>sequence = 7, num_entries = 4, entry_stride = 2,
      entry_sequence = [4, 0xFFFFFFFF, 6, 3], entry_data = [0, 0, 0, 0, 0, 0, 0, 0]\<rparr> 6 =
     Some (Entry_data 4) \<and>
   reliable_sequence_buffer_exists
     \<lparr>sequence = 5, num_entries = 4, entry_stride = 2,
      entry_sequence = [4, 0xFFFFFFFF, 2, 3], entry_data = [0, 0, 0, 0, 0, 0, 0, 0]\<rparr> 6 = Some False \<and>
   reliable_sequence_buffer_find
     \<lparr>sequence = 5, num_entries = 4, entry_stride = 2,
      entry_sequence = [4, 0xFFFFFFFF, 2, 3], entry_data = [0, 0, 0, 0, 0, 0, 0, 0]\<rparr> 6 = Some NULL"
proof -
  let ?b = "\<lparr>sequence = 5, num_entries = 4, entry_stride = 2,
      entry_sequence = [4, 0xFFFFFFFF, 2, 3], entry_data = [0, 0, 0, 0, 0, 0, 0, 0]\<rparr>"
  have v: "valid_buffer ?b"
    by (simp add: valid_buffer_eval)
  have i: "reliable_sequence_buffer_insert ?b 6 =
      Some (\<lparr>sequence = 7, num_entries = 4, entry_stride = 2,
        entry_sequence = [4, 0xFFFFFFFF, 6, 3], entry_data = [0, 0, 0, 0, 0, 0, 0, 0]\<rparr>,
        Entry_data 4)"
    by (simp add: evaluate_insert)
  have e: "reliable_sequence_buffer_exists ?b 6 = Some False"
    by (simp add: reliable_sequence_buffer_exists_def tag_index_def c_rem_def)
  from insert_then_find [OF v, of 6] i e v show ?thesis
    by simp
qed

text \<open>
  The claim as stated, for every buffer, fails where \<open>index * entry_stride\<close> overflows.
  In the buffer of \<open>create(4, 1073741824)\<close> after \<open>reset\<close>, \<open>insert(3)\<close> and then
  \<open>find(3)\<close> both return \<open>entry_data - 1073741824\<close>. The payload area of slot
  \<open>3 % 4\<close> would begin at \<open>entry_data + 3221225472\<close>.
\<close>

theorem insert_then_find_overflow_counterexample:
  "valid_buffer
     \<lparr>sequence = 0, num_entries = 4, entry_stride = 1073741824,
      entry_sequence = [0xFFFFFFFF, 0xFFFFFFFF, 0xFFFFFFFF, 0xFFFFFFFF],
      entry_data = []\<rparr> \<and>
   reliable_sequence_buffer_insert
     \<lparr>sequence = 0, num_entries = 4, entry_stride = 1073741824,
      entry_sequence = [0xFFFFFFFF, 0xFFFFFFFF, 0xFFFFFFFF, 0xFFFFFFFF],
      entry_data = []\<rparr> 3 =
     Some (\<lparr>sequence = 4, num_entries = 4, entry_stride = 1073741824,
             entry_sequence = [0xFFFFFFFF, 0xFFFFFFFF, 0xFFFFFFFF, 3], entry_data = []\<rparr>,
           Entry_data (- 1073741824)) \<and>
   reliable_sequence_buffer_find
     \<lparr>sequence = 4, num_entries = 4, entry_stride = 1073741824,
      entry_sequence = [0xFFFFFFFF, 0xFFFFFFFF, 0xFFFFFFFF, 3], entry_data = []\<rparr> 3 =
     Some (Entry_data (- 1073741824)) \<and>
   uint (3 :: 16 word) mod 4 * 1073741824 = 3221225472 \<and>
   Entry_data (- 1073741824) \<noteq> Entry_data 3221225472"
  by (simp add: valid_buffer_eval evaluate_insert reliable_sequence_buffer_find_def)

text \<open>
  C8: \<open>remove(s)\<close> sets the tag of slot \<open>s % capacity\<close> to the empty sentinel whatever
  it held; afterwards \<open>available(s)\<close> is true and \<open>exists(s)\<close> is false; no other slot
  and no other field changes; removing \<open>s\<close> a second time changes nothing.
\<close>

theorem remove_marks_empty:
  assumes "valid_buffer b"
  shows "\<exists>b'. reliable_sequence_buffer_remove b s = Some b' \<and>
              b' = b\<lparr>entry_sequence :=
                       (entry_sequence b)[nat (uint s mod num_entries b) := 0xFFFFFFFF]\<rparr> \<and>
              sequence b' = sequence b \<and>
              (\<forall>j. j \<noteq> nat (uint s mod num_entries b) \<longrightarrow>
                   entry_sequence b' ! j = entry_sequence b ! j) \<and>
              reliable_sequence_buffer_available b' s = Some True \<and>
              reliable_sequence_buffer_exists b' s = Some False \<and>
              reliable_sequence_buffer_remove b' s = Some b'"
proof -
  let ?i = "nat (uint s mod num_entries b)"
  let ?b = "b\<lparr>entry_sequence := (entry_sequence b)[?i := 0xFFFFFFFF]\<rparr>"
  have slot: "?i < length (entry_sequence b)"
    using assms by (simp add: slot_less)
  have v: "valid_buffer ?b"
    using assms by simp
  have "reliable_sequence_buffer_remove b s = Some ?b"
    using assms by (simp add: reliable_sequence_buffer_remove_def tag_index_valid)
  moreover have "reliable_sequence_buffer_available ?b s = Some True"
    using slot by (simp add: reliable_sequence_buffer_available_def tag_index_valid [OF assms])
  moreover have "reliable_sequence_buffer_exists ?b s = Some False"
    using slot ucast_not_empty [of s, THEN not_sym]
    by (simp add: reliable_sequence_buffer_exists_def tag_index_valid [OF assms])
  moreover have "reliable_sequence_buffer_remove ?b s = Some ?b"
    by (simp add: reliable_sequence_buffer_remove_def tag_index_valid [OF assms])
  ultimately show ?thesis
    by simp
qed

theorem remove_marks_empty_witness:
  "valid_buffer
     \<lparr>sequence = 5, num_entries = 4, entry_stride = 2,
      entry_sequence = [4, 0xFFFFFFFF, 2, 3], entry_data = [0, 0, 0, 0, 0, 0, 0, 0]\<rparr> \<and>
   reliable_sequence_buffer_remove
     \<lparr>sequence = 5, num_entries = 4, entry_stride = 2,
      entry_sequence = [4, 0xFFFFFFFF, 2, 3], entry_data = [0, 0, 0, 0, 0, 0, 0, 0]\<rparr> 7 =
   Some \<lparr>sequence = 5, num_entries = 4, entry_stride = 2,
      entry_sequence = [4, 0xFFFFFFFF, 2, 0xFFFFFFFF], entry_data = [0, 0, 0, 0, 0, 0, 0, 0]\<rparr> \<and>
   reliable_sequence_buffer_available
     \<lparr>sequence = 5, num_entries = 4, entry_stride = 2,
      entry_sequence = [4, 0xFFFFFFFF, 2, 0xFFFFFFFF], entry_data = [0, 0, 0, 0, 0, 0, 0, 0]\<rparr> 7 =
     Some True \<and>
   reliable_sequence_buffer_exists
     \<lparr>sequence = 5, num_entries = 4, entry_stride = 2,
      entry_sequence = [4, 0xFFFFFFFF, 2, 0xFFFFFFFF], entry_data = [0, 0, 0, 0, 0, 0, 0, 0]\<rparr> 3 =
     Some False"
proof -
  let ?b = "\<lparr>sequence = 5, num_entries = 4, entry_stride = 2,
      entry_sequence = [4, 0xFFFFFFFF, 2, 3], entry_data = [0, 0, 0, 0, 0, 0, 0, 0]\<rparr>"
  have v: "valid_buffer ?b"
    by (simp add: valid_buffer_eval)
  from remove_marks_empty [OF v, of 7] v show ?thesis
    by (simp add: reliable_sequence_buffer_exists_def tag_index_def c_rem_def)
qed

text \<open>
  C10: \<open>exists(s)\<close> and \<open>available(s)\<close> are never both true, since a 16-bit sequence
  number cast to 32 bits is never the empty sentinel \<open>0xFFFFFFFF\<close>.
\<close>

theorem exists_excludes_available:
  "\<not> (reliable_sequence_buffer_exists b s = Some True \<and>
      reliable_sequence_buffer_available b s = Some True) \<and>
   (ucast s :: 32 word) \<noteq> 0xFFFFFFFF"
  using ucast_not_empty [of s]
  by (auto simp: reliable_sequence_buffer_exists_def reliable_sequence_buffer_available_def
      split: option.splits)

section \<open>The invariant of the tag array\<close>

lemma slot_invariant_iff:
  "slot_invariant b =
     (\<forall>i < length (entry_sequence b).
        entry_sequence b ! i = 0xFFFFFFFF \<or>
        (uint (entry_sequence b ! i) \<le> 65535 \<and>
         uint (entry_sequence b ! i) mod num_entries b = int i))"
  by (auto simp: slot_invariant_def)

lemma uint_ucast16 [simp]: "uint (ucast (s :: 16 word) :: 32 word) = uint s"
  by (simp add: uint_up_ucast is_up)

lemma ucast16_inj [simp]: "((ucast (s :: 16 word) :: 32 word) = ucast t) = (s = t)"
proof
  assume "(ucast s :: 32 word) = ucast t"
  then have "uint (ucast s :: 32 word) = uint (ucast t :: 32 word)" by simp
  then show "s = t" by (simp add: word_uint_eq_iff)
qed simp

lemma uint16_bound: "uint (s :: 16 word) \<le> 65535"
  using uint_lt2p [of s] by simp

lemma reset_valid:
  "valid_buffer b \<Longrightarrow>
   reliable_sequence_buffer_reset b =
     Some (b\<lparr>sequence := 0,
             entry_sequence := replicate (length (entry_sequence b)) 0xFFFFFFFF\<rparr>)"
  by (auto simp: reliable_sequence_buffer_reset_def valid_buffer_def)

lemma remove_valid:
  "valid_buffer b \<Longrightarrow>
   reliable_sequence_buffer_remove b s =
     Some (b\<lparr>entry_sequence :=
               (entry_sequence b)[nat (uint s mod num_entries b) := 0xFFFFFFFF]\<rparr>)"
  by (simp add: reliable_sequence_buffer_remove_def tag_index_valid)

lemma remove_entries_Some:
  assumes "reliable_sequence_buffer_remove_entries b start finish = Some b'"
  shows "\<exists>hit. b' = b\<lparr>entry_sequence := cleared_tags b hit\<rparr>"
proof -
  have "remove_all_loop b 0 = Some b' \<Longrightarrow> ?thesis"
    by (subst (asm) remove_all_loop_eq) (auto split: if_splits)
  moreover have "remove_entries_loop b st fi = Some b' \<Longrightarrow> ?thesis" for st fi
    by (rule remove_entries_loop_Some)
  ultimately show ?thesis
    using assms
    by (auto simp: reliable_sequence_buffer_remove_entries_def Let_def
        simp del: remove_all_loop.simps split: if_splits)
qed

text \<open>The three shapes of a tag array after one operation.\<close>

lemma slot_invariant_cleared:
  "slot_invariant b \<Longrightarrow> slot_invariant (b\<lparr>entry_sequence := cleared_tags b hit\<rparr>)"
  by (simp add: slot_invariant_iff nth_cleared_tags)

lemma slot_invariant_update_empty:
  "slot_invariant b \<Longrightarrow>
   slot_invariant (b\<lparr>entry_sequence := (entry_sequence b)[i := 0xFFFFFFFF]\<rparr>)"
  by (auto simp: slot_invariant_iff nth_update_cases)

lemma slot_invariant_store:
  fixes s :: "16 word"
  assumes "slot_invariant b" and "valid_buffer b"
  shows "slot_invariant
     (b\<lparr>entry_sequence := (entry_sequence b)[nat (uint s mod num_entries b) := ucast s]\<rparr>)"
proof -
  have "0 < num_entries b"
    using assms(2) by (simp add: valid_buffer_def)
  then have "int (nat (uint s mod num_entries b)) = uint s mod num_entries b"
    by simp
  with assms(1) uint16_bound [of s] show ?thesis
    by (auto simp: slot_invariant_iff nth_update_cases)
qed

lemma slot_invariant_sequence [simp]:
  "slot_invariant (b\<lparr>sequence := q\<rparr>) = slot_invariant b"
  by (simp add: slot_invariant_iff)

lemma insert_shapes:
  assumes "valid_buffer b" and "reliable_sequence_buffer_insert b s = Some (b', p)"
  shows "b' = b \<or>
         b' = b\<lparr>entry_sequence :=
                  (entry_sequence b)[nat (uint s mod num_entries b) := ucast s]\<rparr> \<or>
         b' = b\<lparr>sequence := s + 1,
                entry_sequence :=
                  (cleared_tags b (evicted (num_entries b) (uint (sequence b)) (uint s)))
                    [nat (uint s mod num_entries b) := ucast s]\<rparr>"
  using assms insert_advance [OF assms(1), of s] insert_keep [OF assms(1), of s]
    insert_reject [of s b]
  by (cases "reliable_sequence_greater_than (word_of_int (uint s + 1)) (sequence b)";
      cases "reliable_sequence_less_than s (word_of_int (uint (sequence b) - num_entries b))")
     auto

lemma apply_operation_slot_invariant:
  assumes "valid_buffer b" and "slot_invariant b" and "apply_operation b x = Some b'"
  shows "valid_buffer b' \<and> slot_invariant b'"
proof (cases x)
  case Reset
  with assms show ?thesis
    by (auto simp: reset_valid slot_invariant_iff)
next
  case (Insert s)
  with assms(3) obtain p where ins: "reliable_sequence_buffer_insert b s = Some (b', p)"
    by auto
  let ?c = "b\<lparr>entry_sequence :=
               cleared_tags b (evicted (num_entries b) (uint (sequence b)) (uint s))\<rparr>"
  have c: "valid_buffer ?c" "slot_invariant ?c" "num_entries ?c = num_entries b"
    using assms(1,2) by (simp_all add: slot_invariant_cleared)
  from slot_invariant_store [OF c(2) c(1), of s]
  have "slot_invariant
     (b\<lparr>entry_sequence :=
          (cleared_tags b (evicted (num_entries b) (uint (sequence b)) (uint s)))
            [nat (uint s mod num_entries b) := ucast s]\<rparr>)"
    by simp
  then have "slot_invariant
     (b\<lparr>sequence := s + 1,
        entry_sequence :=
          (cleared_tags b (evicted (num_entries b) (uint (sequence b)) (uint s)))
            [nat (uint s mod num_entries b) := ucast s]\<rparr>)"
    by (simp add: slot_invariant_iff)
  moreover have "valid_buffer
     (b\<lparr>sequence := s + 1,
        entry_sequence :=
          (cleared_tags b (evicted (num_entries b) (uint (sequence b)) (uint s)))
            [nat (uint s mod num_entries b) := ucast s]\<rparr>)"
    using assms(1) by (simp add: valid_buffer_def)
  ultimately show ?thesis
    using insert_shapes [OF assms(1) ins] assms(1,2) slot_invariant_store [OF assms(2,1), of s]
    by auto
next
  case (Remove s)
  with assms show ?thesis
    by (auto simp: remove_valid slot_invariant_update_empty)
next
  case (Remove_entries start finish)
  with assms(3) remove_entries_Some [of b start finish b'] obtain hit
    where "b' = b\<lparr>entry_sequence := cleared_tags b hit\<rparr>"
    by auto
  with assms(1,2) show ?thesis
    by (simp add: slot_invariant_cleared)
qed

lemma run_slot_invariant:
  "valid_buffer b \<Longrightarrow> slot_invariant b \<Longrightarrow> run b xs = Some b' \<Longrightarrow>
   valid_buffer b' \<and> slot_invariant b'"
proof (induction xs arbitrary: b)
  case Nil
  then show ?case by simp
next
  case (Cons x xs)
  from Cons.prems(3) obtain c where c: "apply_operation b x = Some c" "run c xs = Some b'"
    by (auto split: option.splits)
  from apply_operation_slot_invariant [OF Cons.prems(1,2) c(1)] Cons.IH [OF _ _ c(2)]
  show ?case by blast
qed


text \<open>
  C9: from a state produced by \<open>reset\<close>, every run of \<open>insert\<close>, \<open>remove\<close> and
  \<open>remove_entries\<close> (and further resets) keeps each slot \<open>i\<close> either empty or tagged
  with a value \<open>v \<le> 65535\<close> such that \<open>v % capacity = i\<close>; hence when \<open>exists(s)\<close> holds,
  slot \<open>s % capacity\<close> is the only slot whose tag is \<open>s\<close>.
\<close>

theorem slot_invariant_reachable:
  assumes "valid_buffer b0"
    and "reliable_sequence_buffer_reset b0 = Some b1"
    and "run b1 ops = Some b"
  shows "slot_invariant b \<and>
         (\<forall>s. reliable_sequence_buffer_exists b s = Some True \<longrightarrow>
              (\<forall>i\<in>{0..<length (entry_sequence b)}.
                 (entry_sequence b ! i = ucast s) = (i = nat (uint s mod num_entries b))))"
proof -
  from assms(1,2) have "valid_buffer b1 \<and> slot_invariant b1"
    by (auto simp: reset_valid slot_invariant_iff)
  with run_slot_invariant [OF _ _ assms(3)] have v: "valid_buffer b" and inv: "slot_invariant b"
    by simp_all
  have "(entry_sequence b ! i = ucast s) = (i = nat (uint s mod num_entries b))"
    if ex: "reliable_sequence_buffer_exists b s = Some True"
      and i: "i \<in> {0..<length (entry_sequence b)}" for s i
  proof
    assume tag: "entry_sequence b ! i = ucast s"
    from inv i have "entry_sequence b ! i = 0xFFFFFFFF \<or>
        uint (entry_sequence b ! i) mod num_entries b = int i"
      by (auto simp: slot_invariant_iff)
    with tag ucast_not_empty [of s] have "uint s mod num_entries b = int i"
      by simp
    then show "i = nat (uint s mod num_entries b)" by simp
  next
    assume "i = nat (uint s mod num_entries b)"
    with ex v show "entry_sequence b ! i = ucast s"
      by (simp add: reliable_sequence_buffer_exists_def tag_index_valid)
  qed
  with inv show ?thesis by blast
qed

theorem slot_invariant_reachable_witness:
  "valid_buffer
     \<lparr>sequence = 3, num_entries = 4, entry_stride = 1,
      entry_sequence = [7, 0, 1, 0xFFFFFFFF], entry_data = [0, 0, 0, 0]\<rparr> \<and>
   reliable_sequence_buffer_reset
     \<lparr>sequence = 3, num_entries = 4, entry_stride = 1,
      entry_sequence = [7, 0, 1, 0xFFFFFFFF], entry_data = [0, 0, 0, 0]\<rparr> =
   Some \<lparr>sequence = 0, num_entries = 4, entry_stride = 1,
      entry_sequence = [0xFFFFFFFF, 0xFFFFFFFF, 0xFFFFFFFF, 0xFFFFFFFF],
      entry_data = [0, 0, 0, 0]\<rparr> \<and>
   run \<lparr>sequence = 0, num_entries = 4, entry_stride = 1,
      entry_sequence = [0xFFFFFFFF, 0xFFFFFFFF, 0xFFFFFFFF, 0xFFFFFFFF],
      entry_data = [0, 0, 0, 0]\<rparr>
     [Insert 0, Insert 5, Remove 0, Insert 65535, Remove_entries 1 2, Insert 9] =
   Some \<lparr>sequence = 10, num_entries = 4, entry_stride = 1,
      entry_sequence = [0xFFFFFFFF, 9, 0xFFFFFFFF, 0xFFFFFFFF], entry_data = [0, 0, 0, 0]\<rparr> \<and>
   slot_invariant
     \<lparr>sequence = 10, num_entries = 4, entry_stride = 1,
      entry_sequence = [0xFFFFFFFF, 9, 0xFFFFFFFF, 0xFFFFFFFF], entry_data = [0, 0, 0, 0]\<rparr> \<and>
   reliable_sequence_buffer_exists
     \<lparr>sequence = 10, num_entries = 4, entry_stride = 1,
      entry_sequence = [0xFFFFFFFF, 9, 0xFFFFFFFF, 0xFFFFFFFF], entry_data = [0, 0, 0, 0]\<rparr> 9 =
     Some True"
proof -
  let ?raw = "\<lparr>sequence = 3, num_entries = 4, entry_stride = 1,
      entry_sequence = [7, 0, 1, 0xFFFFFFFF], entry_data = [0, 0, 0, 0]\<rparr>"
  let ?empty = "\<lparr>sequence = 0, num_entries = 4, entry_stride = 1,
      entry_sequence = [0xFFFFFFFF, 0xFFFFFFFF, 0xFFFFFFFF, 0xFFFFFFFF],
      entry_data = [0, 0, 0, 0]\<rparr>"
  let ?final = "\<lparr>sequence = 10, num_entries = 4, entry_stride = 1,
      entry_sequence = [0xFFFFFFFF, 9, 0xFFFFFFFF, 0xFFFFFFFF], entry_data = [0, 0, 0, 0]\<rparr>"
  have h1: "valid_buffer ?raw"
    by (simp add: valid_buffer_eval)
  have h2: "reliable_sequence_buffer_reset ?raw = Some ?empty"
    by (simp add: reliable_sequence_buffer_reset_def eval_nat_numeral)
  have h3: "run ?empty
      [Insert 0, Insert 5, Remove 0, Insert 65535, Remove_entries 1 2, Insert 9] = Some ?final"
    by (simp add: evaluate_insert reliable_sequence_buffer_remove_def)
  have e: "reliable_sequence_buffer_exists ?final 9 = Some True"
    by (simp add: reliable_sequence_buffer_exists_def tag_index_def c_rem_def)
  from slot_invariant_reachable [OF h1 h2 h3] h1 h2 h3 e show ?thesis
    by blast
qed

section \<open>Creation followed by reset\<close>

text \<open>
  What \<open>create\<close> alone does not give, \<open>reset\<close> does: after \<open>create\<close> and \<open>reset\<close>
  every tag is the empty sentinel, the newest sequence is 0, and for every sequence \<open>s\<close>
  \<open>available(s)\<close> is true and \<open>exists(s)\<close> is false.
\<close>

theorem create_then_reset_empty:
  assumes "reliable_sequence_buffer_create n stride tags payload = Some b0"
  shows "\<exists>b1. reliable_sequence_buffer_reset b0 = Some b1 \<and> valid_buffer b1 \<and>
           sequence b1 = 0 \<and> entry_sequence b1 = replicate (nat n) 0xFFFFFFFF \<and>
           (\<forall>s. reliable_sequence_buffer_available b1 s = Some True \<and>
                reliable_sequence_buffer_exists b1 s = Some False)"
proof -
  from assms have b0: "b0 = \<lparr>sequence = 0, num_entries = n, entry_stride = stride,
      entry_sequence = tags, entry_data = payload\<rparr>"
    and ok: "0 < n" "0 < stride" "int (length tags) = n" "int_range n" "int_range stride"
      "int (length payload) = size_t (wrap_int (n * stride))"
    by (auto simp: reliable_sequence_buffer_create_def split: if_splits)
  then have v: "valid_buffer b0"
    by (simp add: valid_buffer_def int_range_def)
  let ?b = "b0\<lparr>sequence := 0,
      entry_sequence := replicate (length (entry_sequence b0)) 0xFFFFFFFF\<rparr>"
  have len: "length (entry_sequence b0) = nat n"
    using b0 ok by simp
  have v': "valid_buffer ?b"
    using v by (simp add: valid_buffer_def)
  have slot: "nat (uint s mod num_entries b0) < length (entry_sequence b0)" for s :: "16 word"
    using v by (simp add: slot_less)
  have "reliable_sequence_buffer_available ?b s = Some True \<and>
        reliable_sequence_buffer_exists ?b s = Some False" for s
    using slot [of s] ucast_not_empty [of s, THEN not_sym]
    by (simp add: reliable_sequence_buffer_available_def reliable_sequence_buffer_exists_def
        tag_index_valid [OF v])
  with v' len show ?thesis
    by (simp add: reset_valid [OF v])
qed

theorem create_then_reset_empty_witness:
  "reliable_sequence_buffer_create 2 1 [0, 0] [0, 0] =
     Some \<lparr>sequence = 0, num_entries = 2, entry_stride = 1,
            entry_sequence = [0, 0], entry_data = [0, 0]\<rparr> \<and>
   reliable_sequence_buffer_reset
     \<lparr>sequence = 0, num_entries = 2, entry_stride = 1,
      entry_sequence = [0, 0], entry_data = [0, 0]\<rparr> =
     Some \<lparr>sequence = 0, num_entries = 2, entry_stride = 1,
            entry_sequence = [0xFFFFFFFF, 0xFFFFFFFF], entry_data = [0, 0]\<rparr> \<and>
   reliable_sequence_buffer_available
     \<lparr>sequence = 0, num_entries = 2, entry_stride = 1,
      entry_sequence = [0xFFFFFFFF, 0xFFFFFFFF], entry_data = [0, 0]\<rparr> 0 = Some True \<and>
   reliable_sequence_buffer_exists
     \<lparr>sequence = 0, num_entries = 2, entry_stride = 1,
      entry_sequence = [0xFFFFFFFF, 0xFFFFFFFF], entry_data = [0, 0]\<rparr> 0 = Some False"
proof -
  let ?raw = "\<lparr>sequence = 0, num_entries = 2, entry_stride = 1,
            entry_sequence = [0, 0], entry_data = [0, 0]\<rparr>"
  let ?empty = "\<lparr>sequence = 0, num_entries = 2, entry_stride = 1,
            entry_sequence = [0xFFFFFFFF, 0xFFFFFFFF], entry_data = [0, 0]\<rparr>"
  have c: "reliable_sequence_buffer_create 2 1 [0, 0] [0, 0] = Some ?raw"
    by (simp add: reliable_sequence_buffer_create_def int_range_def wrap_int_def size_t_def)
  have r: "reliable_sequence_buffer_reset ?raw = Some ?empty"
    by (simp add: reliable_sequence_buffer_reset_def eval_nat_numeral)
  from create_then_reset_empty [OF c] r
  have "reliable_sequence_buffer_available ?empty 0 = Some True"
    and "reliable_sequence_buffer_exists ?empty 0 = Some False"
    by auto
  with c r show ?thesis
    by blast
qed

section \<open>Advancing the window\<close>

lemma uint_succ16: "uint (s + 1 :: 16 word) = (if uint s = 65535 then 0 else uint s + 1)"
  using uint16_bound [of s] uint_ge_0 [of s]
  by (auto simp: uint_word_ariths zmod_trivial_iff)

lemma word_of_int_succ16 [simp]: "(word_of_int (uint s + 1) :: 16 word) = s + 1"
  by simp

lemma greater_than_succ_cases:
  assumes "reliable_sequence_greater_than (s + 1) q"
  obtains (plain) "uint q \<le> uint s"
  | (wrapped) "uint s < uint q" and "uint s + 32770 \<le> uint q"
  using assms uint16_bound [of q] uint_ge_0 [of q]
  by (auto simp: reliable_sequence_greater_than_def uint_succ16 split: if_splits)

lemma slot_mod:
  "valid_buffer b \<Longrightarrow> 0 \<le> v \<Longrightarrow> int (nat (v mod num_entries b)) = v mod num_entries b"
  by (simp add: valid_buffer_def)

lemma evicted_plainI:
  "start \<le> finish \<Longrightarrow> start \<le> v \<Longrightarrow> v \<le> finish \<Longrightarrow> v mod n = int i \<Longrightarrow>
   evicted n start finish i"
  by (auto simp: evicted_def Let_def)

lemma evicted_wrappedI:
  "finish < start \<Longrightarrow> start \<le> v \<Longrightarrow> v \<le> finish + 65535 \<Longrightarrow> v mod n = int i \<Longrightarrow>
   evicted n start finish i"
  by (auto simp: evicted_def Let_def)

lemma residents_behindD:
  "residents_behind b \<Longrightarrow>
   entry_sequence b ! nat (uint t mod num_entries b) = ucast (t :: 16 word) \<Longrightarrow>
   uint t < uint (sequence b) \<Longrightarrow> uint (sequence b) - uint t \<le> num_entries b"
  by (auto simp: residents_behind_def)

lemma evicted_plain:
  fixes s t :: "16 word"
  assumes v: "valid_buffer b" and inv: "residents_behind b"
    and res: "entry_sequence b ! nat (uint t mod num_entries b) = ucast t"
    and le: "uint (sequence b) \<le> uint s" and ts: "uint t \<le> uint s"
    and far: "uint (sequence b) \<le> uint t \<or> num_entries b < uint s + 1 - uint t"
  shows "evicted (num_entries b) (uint (sequence b)) (uint s) (nat (uint t mod num_entries b))"
proof (cases "uint (sequence b) \<le> uint t")
  case True
  show ?thesis
  proof (rule evicted_plainI [where v = "uint t"])
    show "uint t mod num_entries b = int (nat (uint t mod num_entries b))"
      using slot_mod [OF v, of "uint t"] by simp
  qed (use le ts True in simp_all)
next
  case False
  then have "uint (sequence b) - uint t \<le> num_entries b"
    using residents_behindD [OF inv res] by simp
  with False far have bounds:
    "uint (sequence b) \<le> uint t + num_entries b" "uint t + num_entries b \<le> uint s"
    by linarith+
  show ?thesis
  proof (rule evicted_plainI [where v = "uint t + num_entries b"])
    show "(uint t + num_entries b) mod num_entries b = int (nat (uint t mod num_entries b))"
      using slot_mod [OF v, of "uint t"] by simp
  qed (use le bounds in simp_all)
qed

lemma evicted_wrapped:
  fixes s t :: "16 word"
  assumes v: "valid_buffer b" and n: "num_entries b \<le> 65536" and inv: "residents_behind b"
    and res: "entry_sequence b ! nat (uint t mod num_entries b) = ucast t"
    and lt: "uint s < uint (sequence b)"
    and mem: "uint (sequence b) \<le> uint t \<or> uint t < uint s"
  shows "evicted (num_entries b) (uint (sequence b)) (uint s) (nat (uint t mod num_entries b))"
proof (cases "uint (sequence b) \<le> uint t")
  case True
  have "uint t \<le> uint s + 65535"
    using uint16_bound [of t] uint_ge_0 [of s] by linarith
  with True lt show ?thesis
  proof (intro evicted_wrappedI [where v = "uint t"])
    show "uint t mod num_entries b = int (nat (uint t mod num_entries b))"
      using slot_mod [OF v, of "uint t"] by simp
  qed simp_all
next
  case False
  with mem have ts: "uint t < uint s" "uint t < uint (sequence b)"
    using lt by linarith+
  then have "uint (sequence b) - uint t \<le> num_entries b"
    using residents_behindD [OF inv res] by simp
  with ts n have bounds:
    "uint (sequence b) \<le> uint t + num_entries b" "uint t + num_entries b \<le> uint s + 65535"
    by linarith+
  with lt show ?thesis
  proof (intro evicted_wrappedI [where v = "uint t + num_entries b"])
    show "(uint t + num_entries b) mod num_entries b = int (nat (uint t mod num_entries b))"
      using slot_mod [OF v, of "uint t"] by simp
  qed simp_all
qed

text \<open>A tag that survives an advancing insert was there before and was not evicted.\<close>

lemma advance_survivor:
  fixes s t :: "16 word"
  assumes v: "valid_buffer b" and ne: "t \<noteq> s"
    and tag: "(cleared_tags b hit)[nat (uint s mod num_entries b) := ucast s]
                ! nat (uint t mod num_entries b) = ucast t"
  shows "entry_sequence b ! nat (uint t mod num_entries b) = ucast t \<and>
         \<not> hit (nat (uint t mod num_entries b))"
proof -
  have slot: "nat (uint t mod num_entries b) < length (entry_sequence b)"
    using v by (simp add: slot_less)
  from tag ne have "cleared_tags b hit ! nat (uint t mod num_entries b) = ucast t"
    by (auto simp: nth_update_cases split: if_splits)
  with slot ucast_not_empty [of t] show ?thesis
    by (auto simp: nth_cleared_tags split: if_splits)
qed


lemma word16_neq_uint: "(s :: 16 word) \<noteq> t \<Longrightarrow> uint s \<noteq> uint t"
  by (simp add: word_uint_eq_iff)

lemma insert_advance_evicts:
  fixes s t :: "16 word"
  assumes v: "valid_buffer b" and n: "num_entries b \<le> 65536" and inv: "residents_behind b"
    and gt: "reliable_sequence_greater_than (s + 1) (sequence b)"
    and mem: "cyclic_range_mem (sequence b) s t" and ne: "t \<noteq> s"
  shows "(cleared_tags b (evicted (num_entries b) (uint (sequence b)) (uint s)))
           [nat (uint s mod num_entries b) := ucast s] ! nat (uint t mod num_entries b)
         \<noteq> ucast t"
proof
  assume "(cleared_tags b (evicted (num_entries b) (uint (sequence b)) (uint s)))
           [nat (uint s mod num_entries b) := ucast s] ! nat (uint t mod num_entries b)
         = ucast t"
  from advance_survivor [OF v ne this]
  have res: "entry_sequence b ! nat (uint t mod num_entries b) = ucast t"
    and keep: "\<not> evicted (num_entries b) (uint (sequence b)) (uint s)
                   (nat (uint t mod num_entries b))"
    by simp_all
  from gt show False
  proof (cases rule: greater_than_succ_cases)
    case plain
    with mem have "uint (sequence b) \<le> uint t" "uint t \<le> uint s"
      by (simp_all add: cyclic_range_mem_def)
    with evicted_plain [OF v inv res plain] keep show False
      by simp
  next
    case wrapped
    with mem word16_neq_uint [OF ne] have "uint (sequence b) \<le> uint t \<or> uint t < uint s"
      by (auto simp: cyclic_range_mem_def)
    with evicted_wrapped [OF v n inv res wrapped(1)] keep show False
      by simp
  qed
qed

lemma insert_advance_behind:
  fixes s :: "16 word"
  assumes v: "valid_buffer b" and n: "num_entries b \<le> 65536" and inv: "residents_behind b"
    and gt: "reliable_sequence_greater_than (s + 1) (sequence b)"
  shows "residents_behind
     (b\<lparr>sequence := s + 1,
        entry_sequence :=
          (cleared_tags b (evicted (num_entries b) (uint (sequence b)) (uint s)))
            [nat (uint s mod num_entries b) := ucast s]\<rparr>)"
  unfolding residents_behind_def
proof (intro allI impI, elim conjE)
  fix t :: "16 word"
  let ?b = "b\<lparr>sequence := s + 1,
        entry_sequence :=
          (cleared_tags b (evicted (num_entries b) (uint (sequence b)) (uint s)))
            [nat (uint s mod num_entries b) := ucast s]\<rparr>"
  assume tag: "entry_sequence ?b ! nat (uint t mod num_entries ?b) = ucast t"
    and below: "uint t < uint (sequence ?b)"
  have pos: "0 < num_entries b"
    using v by (simp add: valid_buffer_def)
  from below have succ: "uint (s + 1) = uint s + 1" and ts: "uint t \<le> uint s"
    using uint_ge_0 [of t] by (simp_all add: uint_succ16 split: if_splits)
  show "uint (sequence ?b) - uint t \<le> num_entries ?b"
  proof (cases "t = s")
    case True
    with succ pos show ?thesis by simp
  next
    case False
    with ts word16_neq_uint [OF False] have less: "uint t < uint s"
      by simp
    from tag have "(cleared_tags b (evicted (num_entries b) (uint (sequence b)) (uint s)))
           [nat (uint s mod num_entries b) := ucast s] ! nat (uint t mod num_entries b)
         = ucast t"
      by simp
    from advance_survivor [OF v False this]
    have res: "entry_sequence b ! nat (uint t mod num_entries b) = ucast t"
      and keep: "\<not> evicted (num_entries b) (uint (sequence b)) (uint s)
                   (nat (uint t mod num_entries b))"
      by simp_all
    from gt show ?thesis
    proof (cases rule: greater_than_succ_cases)
      case plain
      show ?thesis
      proof (rule ccontr)
        assume "\<not> uint (sequence ?b) - uint t \<le> num_entries ?b"
        with succ have "num_entries b < uint s + 1 - uint t"
          by simp
        with evicted_plain [OF v inv res plain ts] keep show False
          by simp
      qed
    next
      case wrapped
      with evicted_wrapped [OF v n inv res wrapped(1)] less keep show ?thesis
        by simp
    qed
  qed
qed

lemma keep_window:
  fixes s q :: "16 word"
  assumes "\<not> reliable_sequence_greater_than (s + 1) q"
    and "\<not> reliable_sequence_less_than s (word_of_int (uint q - n))"
    and "uint s < uint q" and "0 < n" and "n \<le> 65536"
  shows "uint q - uint s \<le> n"
proof (cases "n \<le> uint q")
  case True
  have "uint (word_of_int (uint q - n) :: 16 word) = (uint q - n) mod 65536"
    by (subst uint_word_of_int) simp
  also have "\<dots> = uint q - n"
    using True uint16_bound [of q] assms(4) by (intro mod_pos_pos_trivial) linarith+
  finally have "uint (word_of_int (uint q - n) :: 16 word) = uint q - n" .
  with assms show ?thesis
    using uint16_bound [of q]
    by (auto simp: reliable_sequence_greater_than_def reliable_sequence_less_than_def
        uint_succ16 split: if_splits)
next
  case False
  with uint_ge_0 [of s] show ?thesis by linarith
qed

lemma insert_keep_behind:
  fixes s :: "16 word"
  assumes v: "valid_buffer b" and n: "num_entries b \<le> 65536" and inv: "residents_behind b"
    and ngt: "\<not> reliable_sequence_greater_than (s + 1) (sequence b)"
    and nlt: "\<not> reliable_sequence_less_than s (word_of_int (uint (sequence b) - num_entries b))"
  shows "residents_behind
     (b\<lparr>entry_sequence := (entry_sequence b)[nat (uint s mod num_entries b) := ucast s]\<rparr>)"
  unfolding residents_behind_def
proof (intro allI impI, elim conjE)
  fix t :: "16 word"
  let ?b = "b\<lparr>entry_sequence := (entry_sequence b)[nat (uint s mod num_entries b) := ucast s]\<rparr>"
  assume tag: "entry_sequence ?b ! nat (uint t mod num_entries ?b) = ucast t"
    and below: "uint t < uint (sequence ?b)"
  have pos: "0 < num_entries b"
    using v by (simp add: valid_buffer_def)
  show "uint (sequence ?b) - uint t \<le> num_entries ?b"
  proof (cases "t = s")
    case True
    with keep_window [OF ngt nlt _ pos n] below show ?thesis by simp
  next
    case False
    with tag have "entry_sequence b ! nat (uint t mod num_entries b) = ucast t"
      by (auto simp: nth_update_cases split: if_splits)
    from residents_behindD [OF inv this] below show ?thesis by simp
  qed
qed

lemma cleared_behind:
  assumes v: "valid_buffer b" and inv: "residents_behind b"
  shows "residents_behind (b\<lparr>entry_sequence := cleared_tags b hit\<rparr>)"
  unfolding residents_behind_def
proof (intro allI impI, elim conjE)
  fix t :: "16 word"
  let ?b = "b\<lparr>entry_sequence := cleared_tags b hit\<rparr>"
  assume tag: "entry_sequence ?b ! nat (uint t mod num_entries ?b) = ucast t"
    and below: "uint t < uint (sequence ?b)"
  have "nat (uint t mod num_entries b) < length (entry_sequence b)"
    using v by (simp add: slot_less)
  with tag ucast_not_empty [of t]
  have "entry_sequence b ! nat (uint t mod num_entries b) = ucast t"
    by (auto simp: nth_cleared_tags split: if_splits)
  from residents_behindD [OF inv this] below show "uint (sequence ?b) - uint t \<le> num_entries ?b"
    by simp
qed

lemma remove_behind:
  assumes inv: "residents_behind b"
  shows "residents_behind (b\<lparr>entry_sequence := (entry_sequence b)[i := 0xFFFFFFFF]\<rparr>)"
  unfolding residents_behind_def
proof (intro allI impI, elim conjE)
  fix t :: "16 word"
  let ?b = "b\<lparr>entry_sequence := (entry_sequence b)[i := 0xFFFFFFFF]\<rparr>"
  assume tag: "entry_sequence ?b ! nat (uint t mod num_entries ?b) = ucast t"
    and below: "uint t < uint (sequence ?b)"
  from tag ucast_not_empty [of t]
  have "entry_sequence b ! nat (uint t mod num_entries b) = ucast t"
    by (auto simp: nth_update_cases split: if_splits)
  from residents_behindD [OF inv this] below show "uint (sequence ?b) - uint t \<le> num_entries ?b"
    by simp
qed

lemma reset_behind:
  "residents_behind (b\<lparr>sequence := 0, entry_sequence := es\<rparr>)"
  by (simp add: residents_behind_def)


lemma apply_operation_behind:
  assumes v: "valid_buffer b" and n: "num_entries b \<le> 65536" and inv: "residents_behind b"
    and step: "apply_operation b x = Some b'"
  shows "valid_buffer b' \<and> num_entries b' = num_entries b \<and> residents_behind b'"
proof (cases x)
  case Reset
  with v step show ?thesis
    by (auto simp: reset_valid reset_behind valid_buffer_def)
next
  case (Insert s)
  show ?thesis
  proof (cases "reliable_sequence_greater_than (s + 1) (sequence b)")
    case True
    with insert_advance [OF v, of s] step Insert
    have "b' = b\<lparr>sequence := s + 1,
        entry_sequence :=
          (cleared_tags b (evicted (num_entries b) (uint (sequence b)) (uint s)))
            [nat (uint s mod num_entries b) := ucast s]\<rparr>"
      by auto
    with insert_advance_behind [OF v n inv True] v show ?thesis
      by (simp add: valid_buffer_def)
  next
    case False
    show ?thesis
    proof (cases "reliable_sequence_less_than s (word_of_int (uint (sequence b) - num_entries b))")
      case True
      with insert_reject [of s b] False step Insert v inv show ?thesis
        by auto
    next
      case nlt: False
      with insert_keep [OF v, of s] False step Insert
      have "b' = b\<lparr>entry_sequence :=
               (entry_sequence b)[nat (uint s mod num_entries b) := ucast s]\<rparr>"
        by auto
      with insert_keep_behind [OF v n inv False nlt] v show ?thesis
        by simp
    qed
  qed
next
  case (Remove s)
  with v inv step show ?thesis
    by (auto simp: remove_valid remove_behind)
next
  case (Remove_entries start finish)
  with step remove_entries_Some [of b start finish b'] obtain hit
    where "b' = b\<lparr>entry_sequence := cleared_tags b hit\<rparr>"
    by auto
  with v inv show ?thesis
    by (simp add: cleared_behind)
qed

lemma run_behind:
  "valid_buffer b \<Longrightarrow> num_entries b \<le> 65536 \<Longrightarrow> residents_behind b \<Longrightarrow>
   run b xs = Some b' \<Longrightarrow>
   valid_buffer b' \<and> num_entries b' = num_entries b \<and> residents_behind b'"
proof (induction xs arbitrary: b)
  case Nil
  then show ?case by simp
next
  case (Cons x xs)
  from Cons.prems(4) obtain c where c: "apply_operation b x = Some c" "run c xs = Some b'"
    by (auto split: option.splits)
  from apply_operation_behind [OF Cons.prems(1-3) c(1)]
  have "valid_buffer c" "num_entries c = num_entries b" "residents_behind c"
    by simp_all
  with Cons.IH [OF _ _ _ c(2)] Cons.prems(2) show ?case
    by simp
qed

lemma fill_32:
  "run \<lparr>sequence = 0, num_entries = 32, entry_stride = st,
         entry_sequence = replicate 32 0xFFFFFFFF, entry_data = d\<rparr>
     (map Insert [0, 1, 2, 3, 4, 5, 6, 7, 8, 9, 10, 11, 12, 13, 14, 15, 16, 17, 18,
        19, 20, 21, 22, 23, 24, 25, 26, 27, 28, 29, 30, 31]) =
   Some \<lparr>sequence = 32, num_entries = 32, entry_stride = st,
     entry_sequence =
       [0, 1, 2, 3, 4, 5, 6, 7, 8, 9, 10, 11, 12, 13, 14, 15, 16, 17, 18,
        19, 20, 21, 22, 23, 24, 25, 26, 27, 28, 29, 30, 31],
     entry_data = d\<rparr>"
  by (simp add: evaluate_insert replicate32)

lemma insert_32_after_fill:
  "reliable_sequence_buffer_insert
     \<lparr>sequence = 32, num_entries = 32, entry_stride = st,
      entry_sequence =
       [0, 1, 2, 3, 4, 5, 6, 7, 8, 9, 10, 11, 12, 13, 14, 15, 16, 17, 18,
        19, 20, 21, 22, 23, 24, 25, 26, 27, 28, 29, 30, 31],
      entry_data = d\<rparr> 32 =
   Some (\<lparr>sequence = 33, num_entries = 32, entry_stride = st,
      entry_sequence =
       [32, 1, 2, 3, 4, 5, 6, 7, 8, 9, 10, 11, 12, 13, 14, 15, 16, 17, 18,
        19, 20, 21, 22, 23, 24, 25, 26, 27, 28, 29, 30, 31],
      entry_data = d\<rparr>, Entry_data 0)"
  by (simp add: evaluate_insert)

lemma scenario_32:
  assumes v: "valid_buffer b0" and n: "num_entries b0 = 32"
    and r: "reliable_sequence_buffer_reset b0 = Some b1"
  shows "\<exists>c d. run b1 (map Insert [0, 1, 2, 3, 4, 5, 6, 7, 8, 9, 10, 11, 12, 13, 14, 15, 16,
                    17, 18, 19, 20, 21, 22, 23, 24, 25, 26, 27, 28, 29, 30, 31]) = Some c \<and>
           reliable_sequence_buffer_exists c 0 = Some True \<and>
           run c [Insert 32] = Some d \<and>
           reliable_sequence_buffer_exists d 0 = Some False \<and>
           reliable_sequence_buffer_exists d 32 = Some True"
proof -
  from v n have "length (entry_sequence b0) = 32"
    by (simp add: valid_buffer_def)
  with v r n have "b1 = \<lparr>sequence = 0, num_entries = 32, entry_stride = entry_stride b0,
         entry_sequence = replicate 32 0xFFFFFFFF, entry_data = entry_data b0\<rparr>"
    by (cases b0) (auto simp: reset_valid)
  then have b1: "b1 = \<lparr>sequence = 0, num_entries = 32, entry_stride = entry_stride b0,
         entry_sequence = replicate 32 0xFFFFFFFF, entry_data = entry_data b0\<rparr>" .
  let ?c = "\<lparr>sequence = 32, num_entries = 32, entry_stride = entry_stride b0,
     entry_sequence =
       [0, 1, 2, 3, 4, 5, 6, 7, 8, 9, 10, 11, 12, 13, 14, 15, 16, 17, 18,
        19, 20, 21, 22, 23, 24, 25, 26, 27, 28, 29, 30, 31],
     entry_data = entry_data b0\<rparr>"
  let ?d = "\<lparr>sequence = 33, num_entries = 32, entry_stride = entry_stride b0,
     entry_sequence =
       [32, 1, 2, 3, 4, 5, 6, 7, 8, 9, 10, 11, 12, 13, 14, 15, 16, 17, 18,
        19, 20, 21, 22, 23, 24, 25, 26, 27, 28, 29, 30, 31],
     entry_data = entry_data b0\<rparr>"
  have c: "run b1 (map Insert [0, 1, 2, 3, 4, 5, 6, 7, 8, 9, 10, 11, 12, 13, 14, 15, 16,
                    17, 18, 19, 20, 21, 22, 23, 24, 25, 26, 27, 28, 29, 30, 31]) = Some ?c"
    unfolding b1 by (rule fill_32)
  have d: "run ?c [Insert 32] = Some ?d"
    by (simp add: insert_32_after_fill)
  have "reliable_sequence_buffer_exists ?c 0 = Some True"
    and "reliable_sequence_buffer_exists ?d 0 = Some False"
    and "reliable_sequence_buffer_exists ?d 32 = Some True"
    by (simp_all add: reliable_sequence_buffer_exists_def tag_index_def c_rem_def)
  with c d show ?thesis
    by blast
qed


text \<open>
  C3, amended: in every state reachable from \<open>reset\<close> of a buffer whose capacity is at
  most 65536, if \<open>s + 1\<close> is more recent than the newest sequence, then \<open>insert(s)\<close>
  returns a slot, sets the newest sequence to \<open>s + 1\<close> (modulo \<open>2 ^ 16\<close>), and afterwards
  \<open>exists(t)\<close> is false for every \<open>t \<noteq> s\<close> of the cyclic inclusive range from the old
  newest sequence to \<open>s\<close>, while \<open>exists(s)\<close> is true. In a buffer of capacity 32, after
  the inserts of 0 to 31, \<open>exists(0)\<close> is true, and the insert of 32 makes \<open>exists(0)\<close>
  false and \<open>exists(32)\<close> true.
\<close>

theorem insert_advances_window:
  assumes "valid_buffer b0" and "num_entries b0 \<le> 65536"
    and "reliable_sequence_buffer_reset b0 = Some b1"
    and "run b1 ops = Some b"
    and "reliable_sequence_greater_than (word_of_int (uint s + 1)) (sequence b)"
  shows "(\<exists>b' p. reliable_sequence_buffer_insert b s = Some (b', p) \<and>
            sequence b' = s + 1 \<and>
            (\<forall>t. cyclic_range_mem (sequence b) s t \<and> t \<noteq> s \<longrightarrow>
                 reliable_sequence_buffer_exists b' t = Some False) \<and>
            reliable_sequence_buffer_exists b' s = Some True) \<and>
         (num_entries b0 = 32 \<longrightarrow>
            (\<exists>c d. run b1 (map Insert [0, 1, 2, 3, 4, 5, 6, 7, 8, 9, 10, 11, 12, 13, 14, 15,
                        16, 17, 18, 19, 20, 21, 22, 23, 24, 25, 26, 27, 28, 29, 30, 31]) =
                      Some c \<and>
                    reliable_sequence_buffer_exists c 0 = Some True \<and>
                    run c [Insert 32] = Some d \<and>
                    reliable_sequence_buffer_exists d 0 = Some False \<and>
                    reliable_sequence_buffer_exists d 32 = Some True))"
proof -
  from assms(1,3) have b1: "b1 = b0\<lparr>sequence := 0,
      entry_sequence := replicate (length (entry_sequence b0)) 0xFFFFFFFF\<rparr>"
    by (simp add: reset_valid)
  with assms(1,2) have "valid_buffer b1" "num_entries b1 \<le> 65536" "residents_behind b1"
    by (simp_all add: reset_behind valid_buffer_def)
  from run_behind [OF this assms(4)] this(2)
  have v: "valid_buffer b" and n: "num_entries b \<le> 65536" and inv: "residents_behind b"
    by simp_all
  from assms(5) have gt: "reliable_sequence_greater_than (s + 1) (sequence b)"
    by simp
  let ?tags = "(cleared_tags b (evicted (num_entries b) (uint (sequence b)) (uint s)))
                 [nat (uint s mod num_entries b) := ucast s]"
  let ?b = "b\<lparr>sequence := s + 1, entry_sequence := ?tags\<rparr>"
  have v': "valid_buffer ?b"
    using v by (simp add: valid_buffer_def)
  have slot: "nat (uint s mod num_entries b) < length (entry_sequence b)"
    using v by (simp add: slot_less)
  have "reliable_sequence_buffer_exists ?b t = Some False"
    if "cyclic_range_mem (sequence b) s t" and "t \<noteq> s" for t
    using insert_advance_evicts [OF v n inv gt that]
    by (simp add: reliable_sequence_buffer_exists_def tag_index_valid [OF v])
  moreover have "reliable_sequence_buffer_exists ?b s = Some True"
    using slot by (simp add: reliable_sequence_buffer_exists_def tag_index_valid [OF v])
  ultimately have general:
    "\<exists>b' p. reliable_sequence_buffer_insert b s = Some (b', p) \<and>
            sequence b' = s + 1 \<and>
            (\<forall>t. cyclic_range_mem (sequence b) s t \<and> t \<noteq> s \<longrightarrow>
                 reliable_sequence_buffer_exists b' t = Some False) \<and>
            reliable_sequence_buffer_exists b' s = Some True"
    using insert_advance [OF v assms(5)] by simp
  from general scenario_32 [OF assms(1) _ assms(3)] show ?thesis
    by blast
qed


theorem insert_advances_window_witness:
  "valid_buffer
     \<lparr>sequence = 7, num_entries = 32, entry_stride = 1,
      entry_sequence = replicate 32 0, entry_data = replicate 32 0\<rparr> \<and>
   num_entries
     \<lparr>sequence = 7, num_entries = 32, entry_stride = 1,
      entry_sequence = replicate 32 0, entry_data = replicate 32 0\<rparr> \<le> 65536 \<and>
   reliable_sequence_buffer_reset
     \<lparr>sequence = 7, num_entries = 32, entry_stride = 1,
      entry_sequence = replicate 32 0, entry_data = replicate 32 0\<rparr> =
   Some \<lparr>sequence = 0, num_entries = 32, entry_stride = 1,
      entry_sequence = replicate 32 0xFFFFFFFF, entry_data = replicate 32 0\<rparr> \<and>
   run \<lparr>sequence = 0, num_entries = 32, entry_stride = 1,
      entry_sequence = replicate 32 0xFFFFFFFF, entry_data = replicate 32 0\<rparr>
     (map Insert [0, 1, 2, 3, 4, 5, 6, 7, 8, 9, 10, 11, 12, 13, 14, 15,
                  16, 17, 18, 19, 20, 21, 22, 23, 24, 25, 26, 27, 28, 29, 30, 31]) =
   Some \<lparr>sequence = 32, num_entries = 32, entry_stride = 1,
      entry_sequence =
       [0, 1, 2, 3, 4, 5, 6, 7, 8, 9, 10, 11, 12, 13, 14, 15, 16, 17, 18,
        19, 20, 21, 22, 23, 24, 25, 26, 27, 28, 29, 30, 31],
      entry_data = replicate 32 0\<rparr> \<and>
   reliable_sequence_greater_than (word_of_int (uint (34 :: 16 word) + 1)) 32 \<and>
   reliable_sequence_buffer_insert
     \<lparr>sequence = 32, num_entries = 32, entry_stride = 1,
      entry_sequence =
       [0, 1, 2, 3, 4, 5, 6, 7, 8, 9, 10, 11, 12, 13, 14, 15, 16, 17, 18,
        19, 20, 21, 22, 23, 24, 25, 26, 27, 28, 29, 30, 31],
      entry_data = replicate 32 0\<rparr> 34 =
   Some (\<lparr>sequence = 35, num_entries = 32, entry_stride = 1,
      entry_sequence =
       [0xFFFFFFFF, 0xFFFFFFFF, 34, 3, 4, 5, 6, 7, 8, 9, 10, 11, 12, 13, 14, 15, 16, 17, 18,
        19, 20, 21, 22, 23, 24, 25, 26, 27, 28, 29, 30, 31],
      entry_data = replicate 32 0\<rparr>, Entry_data 2) \<and>
   cyclic_range_mem 32 34 33 \<and>
   reliable_sequence_buffer_exists
     \<lparr>sequence = 35, num_entries = 32, entry_stride = 1,
      entry_sequence =
       [0xFFFFFFFF, 0xFFFFFFFF, 34, 3, 4, 5, 6, 7, 8, 9, 10, 11, 12, 13, 14, 15, 16, 17, 18,
        19, 20, 21, 22, 23, 24, 25, 26, 27, 28, 29, 30, 31],
      entry_data = replicate 32 0\<rparr> 33 = Some False \<and>
   reliable_sequence_buffer_exists
     \<lparr>sequence = 35, num_entries = 32, entry_stride = 1,
      entry_sequence =
       [0xFFFFFFFF, 0xFFFFFFFF, 34, 3, 4, 5, 6, 7, 8, 9, 10, 11, 12, 13, 14, 15, 16, 17, 18,
        19, 20, 21, 22, 23, 24, 25, 26, 27, 28, 29, 30, 31],
      entry_data = replicate 32 0\<rparr> 34 = Some True"
proof -
  let ?raw = "\<lparr>sequence = 7, num_entries = 32, entry_stride = 1,
      entry_sequence = replicate 32 0, entry_data = replicate 32 0\<rparr>"
  let ?empty = "\<lparr>sequence = 0, num_entries = 32, entry_stride = 1,
      entry_sequence = replicate 32 0xFFFFFFFF, entry_data = replicate 32 0\<rparr>"
  let ?ops = "map Insert [0, 1, 2, 3, 4, 5, 6, 7, 8, 9, 10, 11, 12, 13, 14, 15,
                  16, 17, 18, 19, 20, 21, 22, 23, 24, 25, 26, 27, 28, 29, 30, 31]"
  let ?full = "\<lparr>sequence = 32, num_entries = 32, entry_stride = 1,
      entry_sequence =
       [0, 1, 2, 3, 4, 5, 6, 7, 8, 9, 10, 11, 12, 13, 14, 15, 16, 17, 18,
        19, 20, 21, 22, 23, 24, 25, 26, 27, 28, 29, 30, 31],
      entry_data = replicate 32 0\<rparr>"
  have h1: "valid_buffer ?raw"
    by (simp add: valid_buffer_eval)
  have h2: "num_entries ?raw \<le> 65536"
    by simp
  have h3: "reliable_sequence_buffer_reset ?raw = Some ?empty"
    by (simp add: reliable_sequence_buffer_reset_def)
  have h4: "run ?empty ?ops = Some ?full"
    by (rule fill_32)
  have g: "reliable_sequence_greater_than (word_of_int (uint (34 :: 16 word) + 1)) 32"
    by (simp add: reliable_sequence_greater_than_def)
  then have h5:
    "reliable_sequence_greater_than (word_of_int (uint (34 :: 16 word) + 1)) (sequence ?full)"
    by simp
  let ?after = "\<lparr>sequence = 35, num_entries = 32, entry_stride = 1,
      entry_sequence =
       [0xFFFFFFFF, 0xFFFFFFFF, 34, 3, 4, 5, 6, 7, 8, 9, 10, 11, 12, 13, 14, 15, 16, 17, 18,
        19, 20, 21, 22, 23, 24, 25, 26, 27, 28, 29, 30, 31],
      entry_data = replicate 32 0\<rparr>"
  have i: "reliable_sequence_buffer_insert ?full 34 = Some (?after, Entry_data 2)"
    by (simp add: evaluate_insert)
  have m: "cyclic_range_mem 32 34 33"
    by (simp add: cyclic_range_mem_def)
  from insert_advances_window [OF h1 h2 h3 h4 h5] obtain c p
    where c: "reliable_sequence_buffer_insert ?full 34 = Some (c, p)"
      and gone: "\<forall>t. cyclic_range_mem (sequence ?full) 34 t \<and> t \<noteq> 34 \<longrightarrow>
                 reliable_sequence_buffer_exists c t = Some False"
      and there: "reliable_sequence_buffer_exists c 34 = Some True"
    by blast
  from c i have "c = ?after"
    by simp
  with gone there m have e: "reliable_sequence_buffer_exists ?after 33 = Some False"
    "reliable_sequence_buffer_exists ?after 34 = Some True"
    by simp_all
  from h1 h2 h3 h4 g i m e show ?thesis
    by blast
qed


text \<open>
  The claim as stated, for every capacity, fails when the capacity exceeds the number of
  sequence numbers. In a buffer of capacity 65537 the inserts of 0, 32768 and 32770 after
  \<open>reset\<close> lead to the newest sequence 32771 with 0 still resident. \<open>1 + 1\<close> is more
  recent than 32771 and 0 lies in the cyclic range from 32771 to 1, yet after \<open>insert(1)\<close>
  \<open>exists(0)\<close> is still true: the linearised range runs from 32771 to 65536, and slot
  \<open>65536 % 65537\<close> is not the slot of sequence 0.
\<close>

lemma insert_advance_step:
  fixes s :: "16 word"
  assumes v: "valid_buffer b" and gt: "reliable_sequence_greater_than (s + 1) (sequence b)"
  shows "\<exists>b'. apply_operation b (Insert s) = Some b' \<and> valid_buffer b' \<and>
           num_entries b' = num_entries b \<and> sequence b' = s + 1 \<and>
           (\<forall>i < length (entry_sequence b).
              entry_sequence b' ! i =
                (if i = nat (uint s mod num_entries b) then ucast s
                 else if evicted (num_entries b) (uint (sequence b)) (uint s) i then 0xFFFFFFFF
                 else entry_sequence b ! i))"
proof -
  from gt have "reliable_sequence_greater_than (word_of_int (uint s + 1)) (sequence b)"
    by simp
  from insert_advance [OF v this] v show ?thesis
    by (auto simp: valid_buffer_def nth_update_cases nth_cleared_tags)
qed

lemma not_evicted_zero:
  assumes "0 < start" and "(if finish < start then finish + 65535 else finish) \<le> 65536"
  shows "\<not> evicted 65537 start finish 0"
proof -
  have "v mod 65537 \<noteq> 0" if "start \<le> v" and "v \<le> 65536" for v :: int
  proof -
    from that assms(1) have "v mod 65537 = v"
      by (intro mod_pos_pos_trivial) linarith+
    with that assms(1) show ?thesis by linarith
  qed
  with assms show ?thesis
    by (auto simp: evicted_def Let_def)
qed

theorem insert_advance_counterexample:
  "valid_buffer wide_buffer \<and>
   reliable_sequence_buffer_reset wide_buffer = Some wide_buffer \<and>
   sequence_after wide_buffer [Insert 0, Insert 32768, Insert 32770] = Some 32771 \<and>
   exists_after wide_buffer [Insert 0, Insert 32768, Insert 32770] 0 = Some True \<and>
   reliable_sequence_greater_than (word_of_int (uint (1 :: 16 word) + 1)) 32771 \<and>
   cyclic_range_mem 32771 1 0 \<and> (0 :: 16 word) \<noteq> 1 \<and>
   exists_after wide_buffer [Insert 0, Insert 32768, Insert 32770, Insert 1] 0 = Some True"
proof -
  have v0: "valid_buffer wide_buffer" and n0: "num_entries wide_buffer = 65537"
    and s0: "sequence wide_buffer = 0" and l0: "length (entry_sequence wide_buffer) = 65537"
    by (simp_all add: wide_buffer_def valid_buffer_eval)
  have r: "reliable_sequence_buffer_reset wide_buffer = Some wide_buffer"
    by (simp add: wide_buffer_def reliable_sequence_buffer_reset_def)
  have "reliable_sequence_greater_than (0 + 1) (sequence wide_buffer)"
    by (simp add: s0 reliable_sequence_greater_than_def)
  from insert_advance_step [OF v0 this] obtain b1
    where b1: "apply_operation wide_buffer (Insert 0) = Some b1" "valid_buffer b1"
      "num_entries b1 = 65537" "sequence b1 = 1" "entry_sequence b1 ! 0 = 0"
    by (auto simp: n0 l0)
  from b1(2,3) have l1: "length (entry_sequence b1) = 65537"
    by (simp add: valid_buffer_def)
  have "reliable_sequence_greater_than (32768 + 1) (sequence b1)"
    by (simp add: b1 reliable_sequence_greater_than_def)
  from insert_advance_step [OF b1(2) this] not_evicted_zero [of 1 32768] obtain b2
    where b2: "apply_operation b1 (Insert 32768) = Some b2" "valid_buffer b2"
      "num_entries b2 = 65537" "sequence b2 = 32769" "entry_sequence b2 ! 0 = 0"
    by (auto simp: b1 l1)
  from b2(2,3) have l2: "length (entry_sequence b2) = 65537"
    by (simp add: valid_buffer_def)
  have "reliable_sequence_greater_than (32770 + 1) (sequence b2)"
    by (simp add: b2 reliable_sequence_greater_than_def)
  from insert_advance_step [OF b2(2) this] not_evicted_zero [of 32769 32770] obtain b3
    where b3: "apply_operation b2 (Insert 32770) = Some b3" "valid_buffer b3"
      "num_entries b3 = 65537" "sequence b3 = 32771" "entry_sequence b3 ! 0 = 0"
    by (auto simp: b2 l2)
  from b3(2,3) have l3: "length (entry_sequence b3) = 65537"
    by (simp add: valid_buffer_def)
  have g: "reliable_sequence_greater_than (word_of_int (uint (1 :: 16 word) + 1)) 32771"
    by (simp add: reliable_sequence_greater_than_def)
  then have "reliable_sequence_greater_than (1 + 1) (sequence b3)"
    by (simp add: b3)
  from insert_advance_step [OF b3(2) this] not_evicted_zero [of 32771 1] obtain b4
    where b4: "apply_operation b3 (Insert 1) = Some b4" "valid_buffer b4"
      "num_entries b4 = 65537" "entry_sequence b4 ! 0 = 0"
    by (auto simp: b3 l3)
  have run3: "run wide_buffer [Insert 0, Insert 32768, Insert 32770] = Some b3"
    using b1(1) b2(1) b3(1) by (simp del: apply_operation.simps)
  have run4: "run wide_buffer [Insert 0, Insert 32768, Insert 32770, Insert 1] = Some b4"
    using b1(1) b2(1) b3(1) b4(1) by (simp del: apply_operation.simps)
  have e3: "reliable_sequence_buffer_exists b3 0 = Some True"
    using b3 by (simp add: reliable_sequence_buffer_exists_def tag_index_valid)
  have e4: "reliable_sequence_buffer_exists b4 0 = Some True"
    using b4 by (simp add: reliable_sequence_buffer_exists_def tag_index_valid)
  have m: "cyclic_range_mem 32771 1 0"
    by (simp add: cyclic_range_mem_def)
  from v0 r run3 run4 e3 e4 g m b3(4) show ?thesis
    by (simp add: exists_after_def sequence_after_def)
qed

end
